theory Spec2Isabelle
  imports Main
begin

section \<open>Lexer and recursive-descent parser of comp.py\<close>

text \<open>
  Python strings are modelled as HOL strings (lists of 8-bit characters). On these the
  regular expression class \<open>\d\<close> is exactly the ten characters 0 to 9.
\<close>

subsection \<open>Errors and tokens\<close>

text \<open>
  The two exceptions the code can raise: \<open>ValueError\<close> with its message (raised by the
  lexer and by the parser) and the \<open>IndexError\<close> of \<open>tokens[0]\<close> on an empty token list.
\<close>

datatype error = ValueError string | IndexError

text \<open>A token is the pair \<open>(token_type, lexeme)\<close> the lexer appends.\<close>

type_synonym token = "string \<times> string"

subsection \<open>Token patterns\<close>

text \<open>
  The regular expressions of \<open>TOKEN_TYPES\<close>: \<open>Number\<close> is \<open>\d+(\.\d+)?\<close>, every other
  pattern is an escaped literal.
\<close>

datatype pattern = Number | Lit string

definition is_digit :: "char \<Rightarrow> bool" where
  "is_digit c = (c \<in> set ''0123456789'')"

text \<open>
  \<open>re_match p s\<close> is \<open>regex.match(expression, index).group(0)\<close> where \<open>s\<close> is the
  text from \<open>index\<close> on: the match is anchored at the start of \<open>s\<close>; \<open>\d+\<close> is greedy and
  the optional group is taken whenever a dot and at least one digit follow.
\<close>

fun re_match :: "pattern \<Rightarrow> string \<Rightarrow> string option" where
  "re_match Number s =
     (let ds = takeWhile is_digit s; rest = dropWhile is_digit s in
      if ds = [] then None
      else (case rest of
              [] \<Rightarrow> Some ds
            | c # r \<Rightarrow>
                if c = CHR ''.'' \<and> takeWhile is_digit r \<noteq> []
                then Some (ds @ c # takeWhile is_digit r)
                else Some ds))"
| "re_match (Lit l) s = (if take (length l) s = l then Some l else None)"

definition TOKEN_TYPES :: "(string \<times> pattern) list" where
  "TOKEN_TYPES =
     [(''NUMBER'', Number),
      (''PLUS'', Lit ''+''),
      (''MINUS'', Lit ''-''),
      (''MULTIPLY'', Lit ''*''),
      (''DIVIDE'', Lit ''/''),
      (''CARET'', Lit ''^''),
      (''FACTORIAL'', Lit ''!''),
      (''SIN'', Lit ''sin''),
      (''COS'', Lit ''cos''),
      (''LPAREN'', Lit ''(''),
      (''RPAREN'', Lit '')'')]"

text \<open>
  The inner \<open>for\<close> loop of the lexer: the first pattern, in dictionary order, that
  matches at the current position gives the token.
\<close>

fun first_match :: "(string \<times> pattern) list \<Rightarrow> string \<Rightarrow> token option" where
  "first_match [] s = None"
| "first_match ((token_type, p) # ps) s =
     (case re_match p s of
        Some lexeme \<Rightarrow> Some (token_type, lexeme)
      | None \<Rightarrow> first_match ps s)"

lemma re_match_prefix: "re_match p s = Some l \<Longrightarrow> take (length l) s = l"
proof (cases p)
  case Number
  assume m: "re_match p s = Some l"
  let ?ds = "takeWhile is_digit s" and ?rest = "dropWhile is_digit s"
  have s: "s = ?ds @ ?rest" by simp
  show ?thesis
  proof (cases ?rest)
    case Nil
    with m Number have "l = ?ds" by (simp add: Let_def split: if_splits)
    then show ?thesis by (metis append_eq_conv_conj s)
  next
    case (Cons c r)
    have r: "r = takeWhile is_digit r @ dropWhile is_digit r" by simp
    from m Number Cons consider "l = ?ds" | "l = ?ds @ c # takeWhile is_digit r"
      by (auto simp: Let_def split: if_splits)
    then show ?thesis
    proof cases
      case 1
      then show ?thesis by (metis append_eq_conv_conj s)
    next
      case 2
      have "s = (?ds @ c # takeWhile is_digit r) @ dropWhile is_digit r"
        using s Cons r by (metis append.assoc append_Cons)
      then show ?thesis using 2 by (metis append_eq_conv_conj)
    qed
  qed
next
  case (Lit x)
  assume "re_match p s = Some l"
  with Lit show ?thesis by (simp split: if_splits)
qed

lemma re_match_nonempty:
  "re_match p s = Some l \<Longrightarrow> (p, l) \<noteq> (Lit [], []) \<Longrightarrow> p \<noteq> Lit [] \<Longrightarrow> l \<noteq> []"
  by (cases p) (auto simp: Let_def split: if_splits list.splits)

lemma first_match_prefix: "first_match ps s = Some (ty, l) \<Longrightarrow> take (length l) s = l"
  by (induction ps) (auto split: option.splits dest: re_match_prefix)

lemma first_match_nonempty:
  "first_match ps s = Some (ty, l) \<Longrightarrow> Lit [] \<notin> snd ` set ps \<Longrightarrow> l \<noteq> []"
  by (induction ps) (auto split: option.splits dest: re_match_nonempty)

lemma TOKEN_TYPES_no_empty: "Lit [] \<notin> snd ` set TOKEN_TYPES"
  by (simp add: TOKEN_TYPES_def)

lemma first_match_TOKEN_TYPES_nonempty:
  "first_match TOKEN_TYPES s = Some (ty, l) \<Longrightarrow> l \<noteq> []"
  using first_match_nonempty TOKEN_TYPES_no_empty by blast

subsection \<open>The lexer\<close>

text \<open>
  The \<open>while\<close> loop of \<open>lexer\<close>, with its variables \<open>index\<close> and \<open>tokens\<close>; \<open>match.end()\<close>
  is \<open>index\<close> plus the length of the matched text.
\<close>

function lexer_loop :: "string \<Rightarrow> nat \<Rightarrow> token list \<Rightarrow> error + token list" where
  "lexer_loop expression index tokens =
     (if index < length expression then
        (case first_match TOKEN_TYPES (drop index expression) of
           Some (token_type, lexeme) \<Rightarrow>
             lexer_loop expression (index + length lexeme) (tokens @ [(token_type, lexeme)])
         | None \<Rightarrow> Inl (ValueError (''Unexpected character: '' @ [expression ! index])))
      else Inr (tokens @ [(''EOF'', ''EOF'')]))"
  by pat_completeness auto
termination
proof (relation "measure (\<lambda>(expression, index, tokens). length expression - index)")
  show "wf (measure (\<lambda>(expression, index, tokens). length expression - index))" by simp
next
  fix expression :: string and index :: nat and tokens :: "token list"
    and x2 :: token and x y
  assume "index < length expression"
    and "first_match TOKEN_TYPES (drop index expression) = Some x2"
    and "(x, y) = x2"
  then have "y \<noteq> []" using first_match_TOKEN_TYPES_nonempty by metis
  then obtain c cs where "y = c # cs" by (cases y) auto
  then show "((expression, index + length y, tokens @ [(x, y)]), (expression, index, tokens))
       \<in> measure (\<lambda>(expression, index, tokens). length expression - index)"
    using \<open>index < length expression\<close> by simp
qed

definition lexer :: "string \<Rightarrow> error + token list" where
  "lexer expression = lexer_loop expression 0 []"

declare lexer_loop.simps [simp del]

subsection \<open>Syntax trees and the parser state\<close>

text \<open>\<open>ASTNode(value, children)\<close>; a missing \<open>children\<close> argument is the empty list.\<close>

datatype ASTNode = ASTNode (node_value: string) (children: "ASTNode list")

text \<open>
  The labels appended to \<open>derivation_steps\<close>. The code appends fixed strings, two of
  which hold the letter epsilon; each constructor stands for one of these strings, in the
  order of the grammar: \<open>E -> T E'\<close>, \<open>E' -> + T E'\<close>, \<open>E' -> - T E'\<close>, \<open>E' -> eps\<close>,
  \<open>T -> F T'\<close>, \<open>T' -> * F T'\<close>, \<open>T' -> / F T'\<close>, \<open>T' -> eps\<close>, \<open>F -> ( E )\<close>,
  \<open>F -> NUMBER\<close>, \<open>F -> sin F\<close>, \<open>F -> cos F\<close>, \<open>F -> F ^ F\<close>, \<open>F -> F !\<close>.
\<close>

datatype production =
    E_to_T_E' | E'_to_plus_T_E' | E'_to_minus_T_E' | E'_to_eps
  | T_to_F_T' | T'_to_times_F_T' | T'_to_div_F_T' | T'_to_eps
  | F_to_paren_E | F_to_NUMBER | F_to_sin_F | F_to_cos_F | F_to_F_caret_F | F_to_F_fact

record Parser =
  tokens :: "token list"
  index :: nat
  current_token :: token
  derivation_steps :: "production list"

text \<open>\<open>Parser.__init__\<close>: reading \<open>tokens[0]\<close> of an empty list raises \<open>IndexError\<close>.\<close>

definition Parser_init :: "token list \<Rightarrow> error + Parser" where
  "Parser_init toks =
     (if toks = [] then Inl IndexError
      else Inr \<lparr>tokens = toks, index = 0, current_token = toks ! 0, derivation_steps = []\<rparr>)"

definition advance :: "Parser \<Rightarrow> Parser" where
  "advance self =
     (let self = self\<lparr>index := index self + 1\<rparr> in
      if index self < length (tokens self)
      then self\<lparr>current_token := tokens self ! index self\<rparr>
      else self)"

definition match :: "string \<Rightarrow> Parser \<Rightarrow> error + (string \<times> Parser)" where
  "match token_type self =
     (if fst (current_token self) = token_type
      then Inr (snd (current_token self), advance self)
      else Inl (ValueError (''Syntax Error: Expected '' @ token_type @ '', found ''
                            @ fst (current_token self))))"

definition append_step :: "production \<Rightarrow> Parser \<Rightarrow> Parser" where
  "append_step p self = self\<lparr>derivation_steps := derivation_steps self @ [p]\<rparr>"

subsection \<open>The recursive descent\<close>

text \<open>
  The five parsing methods call each other without a bound on the depth, so each takes the
  number of nested calls it may still make: \<open>None\<close> says that this depth was not enough
  for the call to return, \<open>Some (Inl e)\<close> that it raised \<open>e\<close>, and \<open>Some (Inr (v, self))\<close>
  that it returned \<open>v\<close> and left the parser in the state \<open>self\<close>.
\<close>

type_synonym 'a outcome = "(error + 'a) option"

definition and_then :: "'a outcome \<Rightarrow> ('a \<Rightarrow> 'b outcome) \<Rightarrow> 'b outcome" where
  "and_then m f = (case m of None \<Rightarrow> None | Some (Inl e) \<Rightarrow> Some (Inl e) | Some (Inr v) \<Rightarrow> f v)"

definition returns :: "'a \<Rightarrow> 'a outcome" where
  "returns v = Some (Inr v)"

definition raise :: "error \<Rightarrow> 'a outcome" where
  "raise e = Some (Inl e)"

fun parse_E :: "nat \<Rightarrow> Parser \<Rightarrow> (ASTNode \<times> Parser) outcome"
  and parse_E_PRIME :: "nat \<Rightarrow> ASTNode \<Rightarrow> Parser \<Rightarrow> (ASTNode \<times> Parser) outcome"
  and parse_T :: "nat \<Rightarrow> Parser \<Rightarrow> (ASTNode \<times> Parser) outcome"
  and parse_T_PRIME :: "nat \<Rightarrow> ASTNode \<Rightarrow> Parser \<Rightarrow> (ASTNode \<times> Parser) outcome"
  and parse_F :: "nat \<Rightarrow> Parser \<Rightarrow> (ASTNode \<times> Parser) outcome"
where
  "parse_E 0 self = None"
| "parse_E (Suc n) self =
     and_then (parse_T n (append_step E_to_T_E' self)) (\<lambda>(left, self).
     parse_E_PRIME n left self)"
| "parse_E_PRIME 0 left self = None"
| "parse_E_PRIME (Suc n) left self =
     (if fst (current_token self) = ''PLUS'' then
        and_then (Some (match ''PLUS'' (append_step E'_to_plus_T_E' self))) (\<lambda>(_, self).
        and_then (parse_T n self) (\<lambda>(right, self).
        parse_E_PRIME n (ASTNode ''+'' [left, right]) self))
      else if fst (current_token self) = ''MINUS'' then
        and_then (Some (match ''MINUS'' (append_step E'_to_minus_T_E' self))) (\<lambda>(_, self).
        and_then (parse_T n self) (\<lambda>(right, self).
        parse_E_PRIME n (ASTNode ''-'' [left, right]) self))
      else returns (left, append_step E'_to_eps self))"
| "parse_T 0 self = None"
| "parse_T (Suc n) self =
     and_then (parse_F n (append_step T_to_F_T' self)) (\<lambda>(left, self).
     parse_T_PRIME n left self)"
| "parse_T_PRIME 0 left self = None"
| "parse_T_PRIME (Suc n) left self =
     (if fst (current_token self) = ''MULTIPLY'' then
        and_then (Some (match ''MULTIPLY'' (append_step T'_to_times_F_T' self))) (\<lambda>(_, self).
        and_then (parse_F n self) (\<lambda>(right, self).
        parse_T_PRIME n (ASTNode ''*'' [left, right]) self))
      else if fst (current_token self) = ''DIVIDE'' then
        and_then (Some (match ''DIVIDE'' (append_step T'_to_div_F_T' self))) (\<lambda>(_, self).
        and_then (parse_F n self) (\<lambda>(right, self).
        parse_T_PRIME n (ASTNode ''/'' [left, right]) self))
      else returns (left, append_step T'_to_eps self))"
| "parse_F 0 self = None"
| "parse_F (Suc n) self =
     (if fst (current_token self) = ''LPAREN'' then
        and_then (Some (match ''LPAREN'' (append_step F_to_paren_E self))) (\<lambda>(_, self).
        and_then (parse_E n self) (\<lambda>(node, self).
        and_then (Some (match ''RPAREN'' self)) (\<lambda>(_, self).
        returns (node, self))))
      else if fst (current_token self) = ''NUMBER'' then
        and_then (Some (match ''NUMBER'' (append_step F_to_NUMBER self))) (\<lambda>(v, self).
        returns (ASTNode v [], self))
      else if fst (current_token self) = ''SIN'' then
        and_then (Some (match ''SIN'' (append_step F_to_sin_F self))) (\<lambda>(_, self).
        and_then (parse_F n self) (\<lambda>(child, self).
        returns (ASTNode ''sin'' [child], self)))
      else if fst (current_token self) = ''COS'' then
        and_then (Some (match ''COS'' (append_step F_to_cos_F self))) (\<lambda>(_, self).
        and_then (parse_F n self) (\<lambda>(child, self).
        returns (ASTNode ''cos'' [child], self)))
      else if fst (current_token self) = ''CARET'' then
        and_then (parse_F n (append_step F_to_F_caret_F self)) (\<lambda>(left, self).
        and_then (Some (match ''CARET'' self)) (\<lambda>(_, self).
        and_then (parse_F n self) (\<lambda>(right, self).
        returns (ASTNode ''^'' [left, right], self))))
      else if fst (current_token self) = ''FACTORIAL'' then
        and_then (parse_F n (append_step F_to_F_fact self)) (\<lambda>(child, self).
        and_then (Some (match ''FACTORIAL'' self)) (\<lambda>(_, self).
        returns (ASTNode ''!'' [child], self)))
      else raise (ValueError (''Syntax Error: Unexpected token '' @ fst (current_token self))))"

text \<open>\<open>Parser.parse\<close>: one \<open>E\<close>, then the current token has to be \<open>EOF\<close>.\<close>

definition parse :: "nat \<Rightarrow> Parser \<Rightarrow> (ASTNode \<times> production list) outcome" where
  "parse n self =
     and_then (parse_E n self) (\<lambda>(ast, self).
     if fst (current_token self) \<noteq> ''EOF''
     then raise (ValueError (''Syntax Error: Unexpected token '' @ fst (current_token self)))
     else returns (ast, derivation_steps self))"

text \<open>
  What \<open>main\<close> does with the text it is given: the lexer, then a parser over its tokens,
  then \<open>parse\<close>.
\<close>

definition analyse :: "nat \<Rightarrow> string \<Rightarrow> (ASTNode \<times> production list) outcome" where
  "analyse n expression =
     and_then (Some (lexer expression)) (\<lambda>toks.
     and_then (Some (Parser_init toks)) (\<lambda>parser.
     parse n parser))"

subsection \<open>Invariants\<close>

text \<open>The characters that occur in the text matched by some token pattern.\<close>

definition lexeme_chars :: "char set" where
  "lexeme_chars = set ''0123456789.+-*/^!sinco()''"

text \<open>
  The current token is the token at the index, or the last token once the index has run
  past the end of the list.
\<close>

definition current_token_valid :: "Parser \<Rightarrow> bool" where
  "current_token_valid self =
     (tokens self \<noteq> [] \<and>
      current_token self = tokens self ! min (index self) (length (tokens self) - 1))"

text \<open>
  A call that returns leaves the token list as it was and the current token valid.
\<close>

definition keeps :: "Parser \<Rightarrow> (ASTNode \<times> Parser) outcome \<Rightarrow> bool" where
  "keeps self r =
     (\<forall>v self'. r = Some (Inr (v, self')) \<longrightarrow>
        tokens self' = tokens self
        \<and> (current_token_valid self \<longrightarrow> current_token_valid self'))"

text \<open>The number of tokens between the index and the last token.\<close>

definition remaining :: "Parser \<Rightarrow> nat" where
  "remaining self = length (tokens self) - 1 - index self"

text \<open>
  A call, given as a function of the depth it may use, returns or raises within some depth,
  and when it returns, at least \<open>d\<close> more tokens have been consumed.
\<close>

definition finishes :: "nat \<Rightarrow> Parser \<Rightarrow> (nat \<Rightarrow> (ASTNode \<times> Parser) outcome) \<Rightarrow> bool" where
  "finishes d self f =
     (\<exists>n r. f n = Some r
        \<and> (\<forall>v self'. r = Inr (v, self') \<longrightarrow> remaining self' + d \<le> remaining self))"

text \<open>
  The states on which the descent is shown to end: a valid current token, a token list
  that ends with \<open>EOF\<close> and holds no \<open>CARET\<close> and no \<open>FACTORIAL\<close> token.
\<close>

definition ready :: "Parser \<Rightarrow> bool" where
  "ready self =
     (current_token_valid self \<and> fst (last (tokens self)) = ''EOF''
      \<and> list_all (\<lambda>t. fst t \<noteq> ''CARET'' \<and> fst t \<noteq> ''FACTORIAL'') (tokens self))"

section \<open>Properties of the lexer\<close>

subsection \<open>What a match returns\<close>

lemma first_match_kind: "first_match ps s = Some (ty, l) \<Longrightarrow> ty \<in> fst ` set ps"
  by (induction ps) (auto split: option.splits)

lemma first_match_length:
  assumes "first_match ps s = Some (ty, l)"
  shows "length l \<le> length s"
proof -
  have "take (length l) s = l" using assms by (rule first_match_prefix)
  then have "length (take (length l) s) = length l" by simp
  then show ?thesis by simp
qed

lemma first_match_split:
  assumes "first_match ps s = Some (ty, l)"
  shows "s = l @ drop (length l) s"
  using first_match_prefix [OF assms] by (metis append_take_drop_id)

lemma first_match_dot: "first_match TOKEN_TYPES (CHR ''.'' # s) = None"
  by (simp add: TOKEN_TYPES_def is_digit_def)

lemma first_match_Number:
  "re_match Number s = Some l \<Longrightarrow> first_match TOKEN_TYPES s = Some (''NUMBER'', l)"
  by (simp add: TOKEN_TYPES_def del: re_match.simps)

lemma EOF_not_token_type: "''EOF'' \<notin> fst ` set TOKEN_TYPES"
  by (simp add: TOKEN_TYPES_def)

lemma hd_dropWhile_not_digit: "dropWhile is_digit s = c # r \<Longrightarrow> \<not> is_digit c"
  using hd_dropWhile [of is_digit s] by simp

text \<open>
  On a text of digits and dots, a match of the number pattern that is not the whole text
  stops in front of a dot.
\<close>

lemma re_match_Number_rest:
  assumes m: "re_match Number e = Some l" and ne: "l \<noteq> e"
    and cs: "\<forall>c\<in>set e. is_digit c \<or> c = CHR ''.''"
  shows "\<exists>r. drop (length l) e = CHR ''.'' # r"
proof -
  let ?ds = "takeWhile is_digit e" and ?rest = "dropWhile is_digit e"
  have e: "e = ?ds @ ?rest" by simp
  show ?thesis
  proof (cases ?rest)
    case Nil
    with m have "l = ?ds" by (simp add: Let_def split: if_splits)
    with Nil e ne show ?thesis by simp
  next
    case (Cons c r)
    have "c \<in> set e" using Cons by (metis list.set_intros(1) set_dropWhileD)
    moreover have "\<not> is_digit c" using Cons by (rule hd_dropWhile_not_digit)
    ultimately have c: "c = CHR ''.''" using cs by blast
    have dr: "drop (length ?ds) e = c # r" using Cons by (metis append_eq_conv_conj e)
    show ?thesis
    proof (cases "takeWhile is_digit r = []")
      case True
      with m Cons have "l = ?ds" by (simp add: Let_def split: if_splits)
      with dr c show ?thesis by simp
    next
      case False
      let ?fs = "takeWhile is_digit r" and ?rr = "dropWhile is_digit r"
      from False m Cons c have l: "l = ?ds @ c # ?fs"
        by (simp add: Let_def split: if_splits)
      have e2: "e = l @ ?rr"
        using e Cons l by (metis append.assoc append_Cons takeWhile_dropWhile_id)
      then have d2: "drop (length l) e = ?rr" by (metis append_eq_conv_conj)
      show ?thesis
      proof (cases ?rr)
        case Nil
        with e2 ne show ?thesis by simp
      next
        case (Cons c' r')
        have "c' \<in> set r" using Cons by (metis list.set_intros(1) set_dropWhileD)
        then have "c' \<in> set e" using \<open>?rest = c # r\<close>
          by (metis list.set_intros(2) set_dropWhileD)
        moreover have "\<not> is_digit c'" using Cons by (rule hd_dropWhile_not_digit)
        ultimately have "c' = CHR ''.''" using cs by blast
        with d2 Cons show ?thesis by simp
      qed
    qed
  qed
qed

subsection \<open>Invariants of the scanning loop\<close>

lemma lexer_loop_concat:
  "lexer_loop e i ts = Inr toks \<Longrightarrow> i \<le> length e \<Longrightarrow>
   concat (map snd (butlast toks)) = concat (map snd ts) @ drop i e"
proof (induction e i ts rule: lexer_loop.induct)
  case (1 e i ts)
  show ?case
  proof (cases "i < length e")
    case False
    with "1.prems" have "toks = ts @ [(''EOF'', ''EOF'')]" "i = length e"
      by (simp_all add: lexer_loop.simps)
    then show ?thesis by simp
  next
    case True
    show ?thesis
    proof (cases "first_match TOKEN_TYPES (drop i e)")
      case None
      with True "1.prems" show ?thesis by (simp add: lexer_loop.simps)
    next
      case (Some t)
      obtain ty l where t: "t = (ty, l)" by (cases t)
      from True Some t "1.prems"(1)
      have rec: "lexer_loop e (i + length l) (ts @ [(ty, l)]) = Inr toks"
        by (simp add: lexer_loop.simps [of e i])
      have len: "length l \<le> length (drop i e)"
        using Some t first_match_length by blast
      then have le: "i + length l \<le> length e" using True by simp
      have sp: "drop i e = l @ drop (length l) (drop i e)"
        using Some t first_match_split by blast
      have "concat (map snd (butlast toks))
            = concat (map snd (ts @ [(ty, l)])) @ drop (i + length l) e"
        using "1.IH" [OF True Some t [symmetric] rec le] .
      also have "\<dots> = concat (map snd ts) @ l @ drop (length l) (drop i e)"
        by (simp add: add.commute)
      finally show ?thesis using sp by simp
    qed
  qed
qed

lemma lexer_loop_shape:
  "lexer_loop e i ts = Inr toks \<Longrightarrow>
   \<exists>ms. toks = ts @ ms @ [(''EOF'', ''EOF'')]
      \<and> (\<forall>t\<in>set ms. fst t \<in> fst ` set TOKEN_TYPES)"
proof (induction e i ts rule: lexer_loop.induct)
  case (1 e i ts)
  show ?case
  proof (cases "i < length e")
    case False
    with "1.prems" have "toks = ts @ [] @ [(''EOF'', ''EOF'')]"
      by (simp add: lexer_loop.simps)
    then show ?thesis by (intro exI [of _ "[]"]) simp
  next
    case True
    show ?thesis
    proof (cases "first_match TOKEN_TYPES (drop i e)")
      case None
      with True "1.prems" show ?thesis by (simp add: lexer_loop.simps)
    next
      case (Some t)
      obtain ty l where t: "t = (ty, l)" by (cases t)
      from True Some t "1.prems"(1)
      have rec: "lexer_loop e (i + length l) (ts @ [(ty, l)]) = Inr toks"
        by (simp add: lexer_loop.simps [of e i])
      from "1.IH" [OF True Some t [symmetric] rec]
      obtain ms where ms: "toks = (ts @ [(ty, l)]) @ ms @ [(''EOF'', ''EOF'')]"
        "\<forall>t\<in>set ms. fst t \<in> fst ` set TOKEN_TYPES" by blast
      have ty: "ty \<in> fst ` set TOKEN_TYPES" using Some t first_match_kind by blast
      have "toks = ts @ ((ty, l) # ms) @ [(''EOF'', ''EOF'')]" using ms(1) by simp
      moreover have "\<forall>t\<in>set ((ty, l) # ms). fst t \<in> fst ` set TOKEN_TYPES"
        using ms(2) ty by simp
      ultimately show ?thesis by blast
    qed
  qed
qed

lemma lexer_loop_error:
  "lexer_loop e i ts = Inl err \<Longrightarrow>
   \<exists>j<length e. first_match TOKEN_TYPES (drop j e) = None
      \<and> err = ValueError (''Unexpected character: '' @ [e ! j])"
proof (induction e i ts rule: lexer_loop.induct)
  case (1 e i ts)
  show ?case
  proof (cases "i < length e")
    case False
    with "1.prems" show ?thesis by (simp add: lexer_loop.simps)
  next
    case True
    show ?thesis
    proof (cases "first_match TOKEN_TYPES (drop i e)")
      case None
      with True "1.prems" have "err = ValueError (''Unexpected character: '' @ [e ! i])"
        by (simp add: lexer_loop.simps [of e i])
      with True None show ?thesis by blast
    next
      case (Some t)
      obtain ty l where t: "t = (ty, l)" by (cases t)
      from True Some t "1.prems"(1)
      have rec: "lexer_loop e (i + length l) (ts @ [(ty, l)]) = Inl err"
        by (simp add: lexer_loop.simps [of e i])
      from "1.IH" [OF True Some t [symmetric] rec] show ?thesis .
    qed
  qed
qed

subsection \<open>The token sequence\<close>

text \<open>
  C8: whenever the lexer succeeds, the token sequence is not empty, its last element is the
  \<open>EOF\<close> token and no element before it has the kind \<open>EOF\<close>; the empty text gives
  exactly the \<open>EOF\<close> token.
\<close>

theorem lexer_ends_with_single_EOF:
  "(\<forall>toks. lexer e = Inr toks \<longrightarrow>
      toks \<noteq> [] \<and> last toks = (''EOF'', ''EOF'')
      \<and> (\<forall>t\<in>set (butlast toks). fst t \<noteq> ''EOF''))
   \<and> lexer [] = Inr [(''EOF'', ''EOF'')]"
proof (intro conjI allI impI)
  fix toks assume "lexer e = Inr toks"
  then obtain ms where ms: "toks = ms @ [(''EOF'', ''EOF'')]"
    "\<forall>t\<in>set ms. fst t \<in> fst ` set TOKEN_TYPES"
    unfolding lexer_def using lexer_loop_shape by fastforce
  show "toks \<noteq> []" using ms(1) by simp
  show "last toks = (''EOF'', ''EOF'')" using ms(1) by simp
  have "butlast toks = ms" using ms(1) by simp
  then show "\<forall>t\<in>set (butlast toks). fst t \<noteq> ''EOF''"
    using ms(2) EOF_not_token_type by metis
next
  show "lexer [] = Inr [(''EOF'', ''EOF'')]"
    by (simp add: lexer_def lexer_loop.simps)
qed

theorem lexer_ends_with_single_EOF_witness:
  "lexer ''2+3'' = Inr [(''NUMBER'', ''2''), (''PLUS'', ''+''), (''NUMBER'', ''3''), (''EOF'', ''EOF'')]
   \<and> [(''NUMBER'', ''2''), (''PLUS'', ''+''), (''NUMBER'', ''3''), (''EOF'', ''EOF'')] \<noteq> []
   \<and> last [(''NUMBER'', ''2''), (''PLUS'', ''+''), (''NUMBER'', ''3''), (''EOF'', ''EOF'')]
       = (''EOF'', ''EOF'')
   \<and> list_all (\<lambda>t. fst t \<noteq> ''EOF'')
        (butlast [(''NUMBER'', ''2''), (''PLUS'', ''+''), (''NUMBER'', ''3''), (''EOF'', ''EOF'')])"
proof -
  let ?toks = "[(''NUMBER'', ''2''), (''PLUS'', ''+''), (''NUMBER'', ''3''), (''EOF'', ''EOF'')]"
  have h: "lexer ''2+3'' = Inr ?toks" by code_simp
  from lexer_ends_with_single_EOF [of "''2+3''"] h
  have "?toks \<noteq> [] \<and> last ?toks = (''EOF'', ''EOF'')
        \<and> list_all (\<lambda>t. fst t \<noteq> ''EOF'') (butlast ?toks)"
    unfolding list_all_iff by blast
  with h show ?thesis by (rule conjI)
qed

text \<open>
  C9: whenever the lexer succeeds, the lexemes of the tokens before the final \<open>EOF\<close>,
  concatenated in order, are the input text: nothing is skipped, repeated or changed.
\<close>

theorem lexer_lexemes_concat:
  "lexer e = Inr toks \<Longrightarrow> concat (map snd (butlast toks)) = e"
  unfolding lexer_def using lexer_loop_concat [of e 0 "[]" toks] by simp

theorem lexer_lexemes_concat_witness:
  "lexer ''sin(1.5)'' = Inr [(''SIN'', ''sin''), (''LPAREN'', ''(''), (''NUMBER'', ''1.5''),
                            (''RPAREN'', '')''), (''EOF'', ''EOF'')]
   \<and> concat (map snd (butlast [(''SIN'', ''sin''), (''LPAREN'', ''(''), (''NUMBER'', ''1.5''),
                               (''RPAREN'', '')''), (''EOF'', ''EOF'')])) = ''sin(1.5)''"
proof -
  let ?toks = "[(''SIN'', ''sin''), (''LPAREN'', ''(''), (''NUMBER'', ''1.5''),
                (''RPAREN'', '')''), (''EOF'', ''EOF'')]"
  have h: "lexer ''sin(1.5)'' = Inr ?toks" by code_simp
  show ?thesis using h lexer_lexemes_concat [OF h] by (rule conjI)
qed

subsection \<open>Texts of digits and dots\<close>

text \<open>
  The number pattern matches a whole text exactly when the text is a non-empty run of
  digits, or such a run, a dot and another non-empty run of digits.
\<close>

lemma dot_not_digit: "\<not> is_digit CHR ''.''"
  by (simp add: is_digit_def)

lemma Some_eq_if:
  "Some e = (if P then Some a else Some b) \<Longrightarrow> (P \<and> e = a) \<or> (\<not> P \<and> e = b)"
  by (auto split: if_splits)

lemma re_match_Number_unfold:
  assumes "takeWhile is_digit s = ds" and "dropWhile is_digit s = rest"
  shows "re_match Number s =
           (if ds = [] then None
            else (case rest of
                    [] \<Rightarrow> Some ds
                  | c # r \<Rightarrow>
                      if c = CHR ''.'' \<and> takeWhile is_digit r \<noteq> []
                      then Some (ds @ c # takeWhile is_digit r)
                      else Some ds))"
  unfolding re_match.simps Let_def assms by (rule refl)

lemma re_match_Number_whole:
  "re_match Number e = Some e \<longleftrightarrow>
     (\<exists>ds. ds \<noteq> [] \<and> list_all is_digit ds
        \<and> (e = ds \<or> (\<exists>fs. fs \<noteq> [] \<and> list_all is_digit fs \<and> e = ds @ ''.'' @ fs)))"
proof
  assume m: "re_match Number e = Some e"
  let ?ds = "takeWhile is_digit e" and ?rest = "dropWhile is_digit e"
  have e: "e = ?ds @ ?rest" by simp
  have ds: "?ds \<noteq> []" using m by (auto simp: Let_def split: if_splits)
  have dd: "list_all is_digit ?ds" by (auto simp: list_all_iff dest: set_takeWhileD)
  show "\<exists>ds. ds \<noteq> [] \<and> list_all is_digit ds
        \<and> (e = ds \<or> (\<exists>fs. fs \<noteq> [] \<and> list_all is_digit fs \<and> e = ds @ ''.'' @ fs))"
  proof (cases ?rest)
    case Nil
    with e have "e = ?ds" by simp
    with ds dd show ?thesis by metis
  next
    case (Cons c r)
    let ?fs = "takeWhile is_digit r"
    have "e \<noteq> ?ds" using e Cons by (metis append_self_conv list.distinct(1))
    have "re_match Number e
          = (if c = CHR ''.'' \<and> ?fs \<noteq> [] then Some (?ds @ c # ?fs) else Some ?ds)"
      using ds Cons by (simp add: Let_def)
    with m have alt: "Some e
          = (if c = CHR ''.'' \<and> ?fs \<noteq> [] then Some (?ds @ c # ?fs) else Some ?ds)"
      by (simp del: re_match.simps)
    from alt have "((c = CHR ''.'' \<and> ?fs \<noteq> []) \<and> e = ?ds @ c # ?fs)
                   \<or> (\<not> (c = CHR ''.'' \<and> ?fs \<noteq> []) \<and> e = ?ds)"
      by (rule Some_eq_if)
    with \<open>e \<noteq> ?ds\<close> have c: "c = CHR ''.''" and fs: "?fs \<noteq> []"
      and ee: "e = ?ds @ c # ?fs" by blast+
    have "list_all is_digit ?fs" by (auto simp: list_all_iff dest: set_takeWhileD)
    with ds dd c fs ee show ?thesis by auto
  qed
next
  assume "\<exists>ds. ds \<noteq> [] \<and> list_all is_digit ds
        \<and> (e = ds \<or> (\<exists>fs. fs \<noteq> [] \<and> list_all is_digit fs \<and> e = ds @ ''.'' @ fs))"
  then obtain ds where ds: "ds \<noteq> []" "list_all is_digit ds"
    and alt: "e = ds \<or> (\<exists>fs. fs \<noteq> [] \<and> list_all is_digit fs \<and> e = ds @ ''.'' @ fs)"
    by blast
  from alt show "re_match Number e = Some e"
  proof
    assume e: "e = ds"
    have "takeWhile is_digit e = ds" "dropWhile is_digit e = []"
      using ds(2) e by (simp_all add: list_all_iff)
    from re_match_Number_unfold [OF this] ds(1) e show ?thesis by simp
  next
    assume "\<exists>fs. fs \<noteq> [] \<and> list_all is_digit fs \<and> e = ds @ ''.'' @ fs"
    then obtain fs where fs: "fs \<noteq> []" "list_all is_digit fs" and e: "e = ds @ CHR ''.'' # fs"
      by auto
    have t: "takeWhile is_digit e = ds"
      using ds(2) e dot_not_digit by (simp add: list_all_iff)
    have d: "dropWhile is_digit e = CHR ''.'' # fs"
      using ds(2) e dot_not_digit by (simp add: list_all_iff)
    have f: "takeWhile is_digit fs = fs" using fs(2) by (simp add: list_all_iff)
    from re_match_Number_unfold [OF t d] ds(1) fs(1) f e show ?thesis by simp
  qed
qed

text \<open>
  C5, as stated, fails: \<open>1.2.3\<close> is a non-empty text of digits and dots that the lexer
  rejects.
\<close>

theorem lexer_digits_and_dots_counterexample:
  "''1.2.3'' \<noteq> [] \<and> list_all (\<lambda>c. is_digit c \<or> c = CHR ''.'') ''1.2.3''
   \<and> lexer ''1.2.3'' = Inl (ValueError ''Unexpected character: .'')"
  by code_simp

text \<open>
  C5, amended: on a non-empty text of digits and dots the lexer returns exactly one
  \<open>NUMBER\<close> token holding the whole text, followed by \<open>EOF\<close>, when the number pattern
  matches the whole text (digits, or digits, a dot and digits); on every other such text
  it raises the error for an unexpected dot.
\<close>

theorem lexer_digits_and_dots:
  assumes ne: "e \<noteq> []" and cs: "\<forall>c\<in>set e. is_digit c \<or> c = CHR ''.''"
  shows "lexer e =
           (if re_match Number e = Some e
            then Inr [(''NUMBER'', e), (''EOF'', ''EOF'')]
            else Inl (ValueError ''Unexpected character: .''))"
proof (cases "re_match Number e")
  case None
  then have "takeWhile is_digit e = []"
    by (simp add: Let_def split: if_splits list.splits)
  then have "\<not> is_digit (hd e)" using ne by (cases e) (auto split: if_splits)
  then have "hd e = CHR ''.''" using cs ne by (cases e) auto
  then obtain r where e: "e = CHR ''.'' # r" using ne by (cases e) auto
  have "first_match TOKEN_TYPES (drop 0 e) = None" using e first_match_dot by simp
  moreover have "e ! 0 = CHR ''.''" using e by simp
  ultimately have "lexer e = Inl (ValueError ''Unexpected character: .'')"
    using ne by (simp add: lexer_def lexer_loop.simps [of e 0])
  with None show ?thesis by simp
next
  case (Some l)
  then have fm: "first_match TOKEN_TYPES (drop 0 e) = Some (''NUMBER'', l)"
    by (simp add: first_match_Number)
  have step: "lexer e = lexer_loop e (length l) [(''NUMBER'', l)]"
    using ne fm by (simp add: lexer_def lexer_loop.simps [of e 0])
  show ?thesis
  proof (cases "l = e")
    case True
    then have "lexer e = Inr [(''NUMBER'', e), (''EOF'', ''EOF'')]"
      using step by (simp add: lexer_loop.simps [of e "length e"])
    with Some True show ?thesis by simp
  next
    case False
    from re_match_Number_rest [OF Some False cs]
    obtain r where r: "drop (length l) e = CHR ''.'' # r" by blast
    then have lt: "length l < length e"
      by (metis drop_eq_Nil2 list.distinct(1) not_le_imp_less)
    have "e ! length l = hd (drop (length l) e)" using lt by (simp add: hd_drop_conv_nth)
    then have ch: "e ! length l = CHR ''.''" using r by simp
    have "first_match TOKEN_TYPES (drop (length l) e) = None"
      using r first_match_dot by simp
    then have "lexer e = Inl (ValueError ''Unexpected character: .'')"
      using step lt ch by (simp add: lexer_loop.simps [of e "length l"])
    with Some False show ?thesis by simp
  qed
qed

theorem lexer_digits_and_dots_witness:
  "''3.14'' \<noteq> [] \<and> list_all (\<lambda>c. is_digit c \<or> c = CHR ''.'') ''3.14''
   \<and> lexer ''3.14'' = Inr [(''NUMBER'', ''3.14''), (''EOF'', ''EOF'')]"
proof -
  have ne: "''3.14'' \<noteq> []" by simp
  have cs: "\<forall>c\<in>set ''3.14''. is_digit c \<or> c = CHR ''.''" by (simp add: is_digit_def)
  have m: "re_match Number ''3.14'' = Some ''3.14''" by code_simp
  have "lexer ''3.14'' = Inr [(''NUMBER'', ''3.14''), (''EOF'', ''EOF'')]"
    using lexer_digits_and_dots [OF ne cs] m by (simp del: re_match.simps)
  with ne cs show ?thesis unfolding list_all_iff by blast
qed

subsection \<open>Failure of the lexer\<close>

lemma digit_lexeme_char: "is_digit c \<Longrightarrow> c \<in> lexeme_chars"
  by (auto simp: is_digit_def lexeme_chars_def)

lemma takeWhile_digit_chars: "set (takeWhile is_digit s) \<subseteq> lexeme_chars"
  using digit_lexeme_char by (auto dest: set_takeWhileD)

lemma re_match_chars:
  assumes "re_match p s = Some l" and "p \<in> snd ` set TOKEN_TYPES"
  shows "set l \<subseteq> lexeme_chars"
proof (cases p)
  case Number
  have dot: "CHR ''.'' \<in> lexeme_chars" by (simp add: lexeme_chars_def)
  from assms(1) Number
  consider "l = takeWhile is_digit s"
    | r where "l = takeWhile is_digit s @ CHR ''.'' # takeWhile is_digit r"
    by (auto simp: Let_def split: if_splits list.splits)
  then show ?thesis
  proof cases
    case 1
    then show ?thesis using takeWhile_digit_chars by simp
  next
    case 2
    then show ?thesis using takeWhile_digit_chars [of s] takeWhile_digit_chars [of r] dot by simp
  qed
next
  case (Lit x)
  with assms(1) have "l = x" by (simp split: if_splits)
  moreover from Lit assms(2) have "set x \<subseteq> lexeme_chars"
    by (auto simp: TOKEN_TYPES_def lexeme_chars_def)
  ultimately show ?thesis by simp
qed

lemma first_match_chars:
  "first_match ps s = Some (ty, l) \<Longrightarrow> set ps \<subseteq> set TOKEN_TYPES \<Longrightarrow> set l \<subseteq> lexeme_chars"
proof (induction ps)
  case Nil
  then show ?case by simp
next
  case (Cons a ps)
  obtain ty' p where a: "a = (ty', p)" by (cases a)
  show ?case
  proof (cases "re_match p s")
    case None
    with Cons a show ?thesis by simp
  next
    case (Some l')
    with Cons.prems(1) a have "l = l'" by simp
    moreover have "p \<in> snd ` set TOKEN_TYPES" using Cons.prems(2) a by force
    ultimately show ?thesis using Some re_match_chars by blast
  qed
qed

lemma lexer_loop_chars:
  "lexer_loop e i ts = Inr toks \<Longrightarrow> \<forall>t\<in>set ts. set (snd t) \<subseteq> lexeme_chars \<Longrightarrow>
   \<forall>t\<in>set (butlast toks). set (snd t) \<subseteq> lexeme_chars"
proof (induction e i ts rule: lexer_loop.induct)
  case (1 e i ts)
  show ?case
  proof (cases "i < length e")
    case False
    with "1.prems"(1) have "toks = ts @ [(''EOF'', ''EOF'')]" by (simp add: lexer_loop.simps)
    then show ?thesis using "1.prems"(2) by simp
  next
    case True
    show ?thesis
    proof (cases "first_match TOKEN_TYPES (drop i e)")
      case None
      with True "1.prems" show ?thesis by (simp add: lexer_loop.simps)
    next
      case (Some t)
      obtain ty l where t: "t = (ty, l)" by (cases t)
      from True Some t "1.prems"(1)
      have rec: "lexer_loop e (i + length l) (ts @ [(ty, l)]) = Inr toks"
        by (simp add: lexer_loop.simps [of e i])
      have "set l \<subseteq> lexeme_chars" using Some t first_match_chars by blast
      then have "\<forall>t\<in>set (ts @ [(ty, l)]). set (snd t) \<subseteq> lexeme_chars"
        using "1.prems"(2) by simp
      with "1.IH" [OF True Some t [symmetric] rec] show ?thesis .
    qed
  qed
qed

lemma lexer_chars:
  assumes "lexer e = Inr toks"
  shows "set e \<subseteq> lexeme_chars"
proof -
  have "\<forall>t\<in>set (butlast toks). set (snd t) \<subseteq> lexeme_chars"
    using assms lexer_loop_chars [of e 0 "[]" toks] by (simp add: lexer_def)
  then have "set (concat (map snd (butlast toks))) \<subseteq> lexeme_chars" by auto
  moreover have "concat (map snd (butlast toks)) = e"
    using assms lexer_loop_concat [of e 0 "[]" toks] by (simp add: lexer_def)
  ultimately show ?thesis by simp
qed

text \<open>
  C6, as stated, fails twice. A text can hold a position where no pattern matches and
  still be accepted, because a longer match steps over that position: the dot of \<open>1.5\<close>.
  And the error carries the character only: \<open>@\<close> at position 0 and \<open>@\<close> at position 2
  raise the same error.
\<close>

theorem lexer_no_match_counterexample:
  "first_match TOKEN_TYPES (drop 1 ''1.5'') = None
   \<and> lexer ''1.5'' = Inr [(''NUMBER'', ''1.5''), (''EOF'', ''EOF'')]
   \<and> first_match TOKEN_TYPES (drop 0 ''@'') = None
   \<and> lexer ''@'' = Inl (ValueError ''Unexpected character: @'')
   \<and> first_match TOKEN_TYPES (drop 2 ''22@'') = None
   \<and> lexer ''22@'' = Inl (ValueError ''Unexpected character: @'')"
  by code_simp

text \<open>
  C6, amended: when the scan stands at a position where no token pattern matches, the
  lexer raises \<open>ValueError\<close> with the message \<open>Unexpected character:\<close> followed by the
  character at that position, and returns no tokens; the message does not hold the
  position. Every error of the lexer arises this way, and every text that holds a
  character outside the token patterns is rejected.
\<close>

theorem lexer_no_match:
  "(i < length e \<and> first_match TOKEN_TYPES (drop i e) = None \<longrightarrow>
      lexer_loop e i ts = Inl (ValueError (''Unexpected character: '' @ [e ! i])))
   \<and> (\<forall>err. lexer e = Inl err \<longrightarrow>
         (\<exists>j<length e. first_match TOKEN_TYPES (drop j e) = None
            \<and> err = ValueError (''Unexpected character: '' @ [e ! j])))
   \<and> (\<not> set e \<subseteq> lexeme_chars \<longrightarrow> (\<exists>err. lexer e = Inl err))"
proof (intro conjI allI impI)
  assume "i < length e \<and> first_match TOKEN_TYPES (drop i e) = None"
  then show "lexer_loop e i ts = Inl (ValueError (''Unexpected character: '' @ [e ! i]))"
    by (simp add: lexer_loop.simps [of e i])
next
  fix err assume "lexer e = Inl err"
  then show "\<exists>j<length e. first_match TOKEN_TYPES (drop j e) = None
            \<and> err = ValueError (''Unexpected character: '' @ [e ! j])"
    unfolding lexer_def by (rule lexer_loop_error)
next
  assume "\<not> set e \<subseteq> lexeme_chars"
  then have "\<forall>toks. lexer e \<noteq> Inr toks" using lexer_chars by blast
  then show "\<exists>err. lexer e = Inl err" by (cases "lexer e") auto
qed

theorem lexer_no_match_witness:
  "1 < length ''2@3'' \<and> first_match TOKEN_TYPES (drop 1 ''2@3'') = None
   \<and> lexer_loop ''2@3'' 1 [(''NUMBER'', ''2'')] = Inl (ValueError ''Unexpected character: @'')
   \<and> lexer ''2@3'' = Inl (ValueError ''Unexpected character: @'')
   \<and> \<not> set ''2@3'' \<subseteq> lexeme_chars"
proof -
  have h: "1 < length ''2@3'' \<and> first_match TOKEN_TYPES (drop 1 ''2@3'') = None" by code_simp
  have "lexer_loop ''2@3'' 1 [(''NUMBER'', ''2'')]
        = Inl (ValueError (''Unexpected character: '' @ [''2@3'' ! 1]))"
    using lexer_no_match [of 1 "''2@3''" "[(''NUMBER'', ''2'')]", THEN conjunct1] h
    by (rule mp)
  then have l: "lexer_loop ''2@3'' 1 [(''NUMBER'', ''2'')]
        = Inl (ValueError ''Unexpected character: @'')" by simp
  have c: "\<not> set ''2@3'' \<subseteq> lexeme_chars" by (simp add: lexeme_chars_def)
  have r: "lexer ''2@3'' = Inl (ValueError ''Unexpected character: @'')" by code_simp
  from h l r c show ?thesis by (intro conjI) (elim conjE | assumption)+
qed

section \<open>Properties of the parser\<close>

subsection \<open>Sequencing\<close>

lemma and_then_simps [simp]:
  "and_then None f = None"
  "and_then (Some (Inl e)) f = Some (Inl e)"
  "and_then (Some (Inr v)) f = f v"
  by (simp_all add: and_then_def)

lemma and_then_Some_iff:
  "and_then m f = Some r \<longleftrightarrow>
     (\<exists>e. m = Some (Inl e) \<and> r = Inl e) \<or> (\<exists>v. m = Some (Inr v) \<and> f v = Some r)"
  by (auto simp: and_then_def split: option.splits sum.splits)

lemma and_then_deeper:
  assumes "and_then m f = Some r" and "\<And>x. m = Some x \<Longrightarrow> m' = Some x"
  shows "and_then m' f = Some r"
  using assms by (auto simp: and_then_def split: option.splits sum.splits)

lemma append_step_simps [simp]:
  "current_token (append_step p self) = current_token self"
  "tokens (append_step p self) = tokens self"
  "index (append_step p self) = index self"
  by (simp_all add: append_step_def)

subsection \<open>A call that returns within some depth returns the same within any larger depth\<close>

lemma parse_E_deeper:
  assumes "parse_E (Suc n) self = Some r"
    and "\<And>self r. parse_T n self = Some r \<Longrightarrow> parse_T m self = Some r"
    and "\<And>left self r. parse_E_PRIME n left self = Some r \<Longrightarrow> parse_E_PRIME m left self = Some r"
  shows "parse_E (Suc m) self = Some r"
  using assms by (auto simp: and_then_Some_iff split: prod.splits)

lemma parse_E_PRIME_deeper:
  assumes "parse_E_PRIME (Suc n) left self = Some r"
    and "\<And>self r. parse_T n self = Some r \<Longrightarrow> parse_T m self = Some r"
    and "\<And>left self r. parse_E_PRIME n left self = Some r \<Longrightarrow> parse_E_PRIME m left self = Some r"
  shows "parse_E_PRIME (Suc m) left self = Some r"
  using assms by (auto simp: and_then_Some_iff split: prod.splits if_splits)

lemma parse_T_deeper:
  assumes "parse_T (Suc n) self = Some r"
    and "\<And>self r. parse_F n self = Some r \<Longrightarrow> parse_F m self = Some r"
    and "\<And>left self r. parse_T_PRIME n left self = Some r \<Longrightarrow> parse_T_PRIME m left self = Some r"
  shows "parse_T (Suc m) self = Some r"
  using assms by (auto simp: and_then_Some_iff split: prod.splits)

lemma parse_T_PRIME_deeper:
  assumes "parse_T_PRIME (Suc n) left self = Some r"
    and "\<And>self r. parse_F n self = Some r \<Longrightarrow> parse_F m self = Some r"
    and "\<And>left self r. parse_T_PRIME n left self = Some r \<Longrightarrow> parse_T_PRIME m left self = Some r"
  shows "parse_T_PRIME (Suc m) left self = Some r"
  using assms by (auto simp: and_then_Some_iff split: prod.splits if_splits)

lemma parse_F_deeper:
  assumes "parse_F (Suc n) self = Some r"
    and "\<And>self r. parse_F n self = Some r \<Longrightarrow> parse_F m self = Some r"
    and "\<And>self r. parse_E n self = Some r \<Longrightarrow> parse_E m self = Some r"
  shows "parse_F (Suc m) self = Some r"
  using assms by (auto simp: and_then_Some_iff split: prod.splits if_splits)

lemma fuel_mono_all:
  "n \<le> m \<Longrightarrow>
   (\<forall>self r. parse_E n self = Some r \<longrightarrow> parse_E m self = Some r)
 \<and> (\<forall>left self r. parse_E_PRIME n left self = Some r \<longrightarrow> parse_E_PRIME m left self = Some r)
 \<and> (\<forall>self r. parse_T n self = Some r \<longrightarrow> parse_T m self = Some r)
 \<and> (\<forall>left self r. parse_T_PRIME n left self = Some r \<longrightarrow> parse_T_PRIME m left self = Some r)
 \<and> (\<forall>self r. parse_F n self = Some r \<longrightarrow> parse_F m self = Some r)"
proof (induction n arbitrary: m)
  case 0
  show ?case by simp
next
  case (Suc n)
  from Suc.prems obtain k where m: "m = Suc k" and le: "n \<le> k" by (cases m) auto
  note IH = Suc.IH [OF le]
  have E: "\<And>self r. parse_E n self = Some r \<Longrightarrow> parse_E k self = Some r"
    using IH by blast
  have EP: "\<And>left self r. parse_E_PRIME n left self = Some r \<Longrightarrow> parse_E_PRIME k left self = Some r"
    using IH by blast
  have T: "\<And>self r. parse_T n self = Some r \<Longrightarrow> parse_T k self = Some r"
    using IH by blast
  have TP: "\<And>left self r. parse_T_PRIME n left self = Some r \<Longrightarrow> parse_T_PRIME k left self = Some r"
    using IH by blast
  have F: "\<And>self r. parse_F n self = Some r \<Longrightarrow> parse_F k self = Some r"
    using IH by blast
  show ?case
    unfolding m
  proof (intro conjI allI impI)
    fix self r assume "parse_E (Suc n) self = Some r"
    then show "parse_E (Suc k) self = Some r" by (rule parse_E_deeper) (erule T, erule EP)
  next
    fix left self r assume "parse_E_PRIME (Suc n) left self = Some r"
    then show "parse_E_PRIME (Suc k) left self = Some r" by (rule parse_E_PRIME_deeper) (erule T, erule EP)
  next
    fix self r assume "parse_T (Suc n) self = Some r"
    then show "parse_T (Suc k) self = Some r" by (rule parse_T_deeper) (erule F, erule TP)
  next
    fix left self r assume "parse_T_PRIME (Suc n) left self = Some r"
    then show "parse_T_PRIME (Suc k) left self = Some r" by (rule parse_T_PRIME_deeper) (erule F, erule TP)
  next
    fix self r assume "parse_F (Suc n) self = Some r"
    then show "parse_F (Suc k) self = Some r" by (rule parse_F_deeper) (erule F, erule E)
  qed
qed

lemma parse_deeper:
  assumes "parse n self = Some r" and "n \<le> m"
  shows "parse m self = Some r"
proof -
  have "\<And>self r. parse_E n self = Some r \<Longrightarrow> parse_E m self = Some r"
    using fuel_mono_all [OF assms(2)] by blast
  with assms(1) show ?thesis
    unfolding parse_def by (rule and_then_deeper)
qed

lemma analyse_deeper:
  assumes "analyse n e = Some r" and "n \<le> m"
  shows "analyse m e = Some r"
  using assms(1) parse_deeper [OF _ assms(2)]
  unfolding analyse_def by (auto simp: and_then_def split: option.splits sum.splits)

subsection \<open>The left-recursive alternatives\<close>

lemma parse_F_left_recursion:
  "fst (current_token self) = ''CARET'' \<or> fst (current_token self) = ''FACTORIAL''
   \<Longrightarrow> parse_F n self = None"
proof (induction n arbitrary: self)
  case 0
  show ?case by simp
next
  case (Suc n)
  from Suc.prems show ?case
  proof
    assume c: "fst (current_token self) = ''CARET''"
    then have "parse_F n (append_step F_to_F_caret_F self) = None"
      using Suc.IH by simp
    with c show ?thesis by simp
  next
    assume c: "fst (current_token self) = ''FACTORIAL''"
    then have "parse_F n (append_step F_to_F_fact self) = None"
      using Suc.IH by simp
    with c show ?thesis by simp
  qed
qed

lemma parse_T_left_recursion:
  assumes "fst (current_token self) = ''CARET'' \<or> fst (current_token self) = ''FACTORIAL''"
  shows "parse_T n self = None"
proof (cases n)
  case 0
  then show ?thesis by simp
next
  case (Suc k)
  have "parse_F k (append_step T_to_F_T' self) = None"
    using assms by (intro parse_F_left_recursion) simp
  with Suc show ?thesis by simp
qed

lemma parse_E_left_recursion:
  assumes "fst (current_token self) = ''CARET'' \<or> fst (current_token self) = ''FACTORIAL''"
  shows "parse_E n self = None"
proof (cases n)
  case 0
  then show ?thesis by simp
next
  case (Suc k)
  have "parse_T k (append_step E_to_T_E' self) = None"
    using assms by (intro parse_T_left_recursion) simp
  with Suc show ?thesis by simp
qed

lemma parse_left_recursion:
  assumes "fst (current_token self) = ''CARET'' \<or> fst (current_token self) = ''FACTORIAL''"
  shows "parse n self = None"
  using parse_E_left_recursion [OF assms] by (simp add: parse_def)

subsection \<open>The current token stays inside the token list\<close>

lemma returns_simps [simp]:
  "returns v = Some r \<longleftrightarrow> r = Inr v"
  "raise e = Some r \<longleftrightarrow> r = Inl e"
  by (auto simp: returns_def raise_def)

lemma valid_append_step [simp]:
  "current_token_valid (append_step p self) = current_token_valid self"
  by (simp add: current_token_valid_def)

lemma valid_advance:
  assumes "current_token_valid self"
  shows "current_token_valid (advance self)"
proof (cases "index self + 1 < length (tokens self)")
  case True
  then have "min (index self + 1) (length (tokens self) - 1) = index self + 1" by simp
  with True assms show ?thesis
    by (simp add: current_token_valid_def advance_def Let_def)
next
  case False
  then have "min (index self + 1) (length (tokens self) - 1) = length (tokens self) - 1"
    and "min (index self) (length (tokens self) - 1) = length (tokens self) - 1"
    by simp_all
  with False assms show ?thesis
    by (simp add: current_token_valid_def advance_def Let_def)
qed

lemma tokens_advance [simp]: "tokens (advance self) = tokens self"
  by (simp add: advance_def Let_def)

lemma match_keeps:
  "match t self = Inr (v, self') \<Longrightarrow>
   tokens self' = tokens self \<and> (current_token_valid self \<longrightarrow> current_token_valid self')"
  by (auto simp: match_def valid_advance split: if_splits)

lemma keepsD:
  "keeps self r \<Longrightarrow> r = Some (Inr (v, self')) \<Longrightarrow>
   tokens self' = tokens self \<and> (current_token_valid self \<longrightarrow> current_token_valid self')"
  by (simp add: keeps_def)

lemma parse_E_keeps:
  assumes "\<And>self. keeps self (parse_T n self)"
    and "\<And>left self. keeps self (parse_E_PRIME n left self)"
  shows "keeps self (parse_E (Suc n) self)"
  unfolding keeps_def
  using assms [THEN keepsD]
  by (fastforce simp: and_then_Some_iff split: prod.splits)

lemma parse_E_PRIME_keeps:
  assumes "\<And>self. keeps self (parse_T n self)"
    and "\<And>left self. keeps self (parse_E_PRIME n left self)"
  shows "keeps self (parse_E_PRIME (Suc n) left self)"
  unfolding keeps_def
  using assms [THEN keepsD] match_keeps
  by (fastforce simp: and_then_Some_iff split: prod.splits if_splits)


lemma parse_T_keeps:
  assumes "\<And>self. keeps self (parse_F n self)"
    and "\<And>left self. keeps self (parse_T_PRIME n left self)"
  shows "keeps self (parse_T (Suc n) self)"
  unfolding keeps_def
  using assms [THEN keepsD]
  by (fastforce simp: and_then_Some_iff split: prod.splits)

lemma parse_T_PRIME_keeps:
  assumes "\<And>self. keeps self (parse_F n self)"
    and "\<And>left self. keeps self (parse_T_PRIME n left self)"
  shows "keeps self (parse_T_PRIME (Suc n) left self)"
  unfolding keeps_def
  using assms [THEN keepsD] match_keeps
  by (fastforce simp: and_then_Some_iff split: prod.splits if_splits)

lemma parse_F_keeps:
  assumes "\<And>self. keeps self (parse_F n self)"
    and "\<And>self. keeps self (parse_E n self)"
  shows "keeps self (parse_F (Suc n) self)"
  unfolding keeps_def
  using assms [THEN keepsD] match_keeps
  by (fastforce simp: and_then_Some_iff split: prod.splits if_splits)

lemma keeps_all:
  "(\<forall>self. keeps self (parse_E n self))
 \<and> (\<forall>left self. keeps self (parse_E_PRIME n left self))
 \<and> (\<forall>self. keeps self (parse_T n self))
 \<and> (\<forall>left self. keeps self (parse_T_PRIME n left self))
 \<and> (\<forall>self. keeps self (parse_F n self))"
proof (induction n)
  case 0
  show ?case by (simp add: keeps_def)
next
  case (Suc n)
  then show ?case
    by (intro conjI allI parse_E_keeps parse_E_PRIME_keeps parse_T_keeps
        parse_T_PRIME_keeps parse_F_keeps) blast+
qed

lemma at_end_EOF:
  assumes "current_token_valid self" and "fst (last (tokens self)) = ''EOF''"
    and "length (tokens self) - 1 \<le> index self"
  shows "current_token self = last (tokens self)" "fst (current_token self) = ''EOF''"
proof -
  have "min (index self) (length (tokens self) - 1) = length (tokens self) - 1"
    using assms(3) by simp
  then show "current_token self = last (tokens self)"
    using assms(1) by (simp add: current_token_valid_def last_conv_nth)
  then show "fst (current_token self) = ''EOF''" using assms(2) by simp
qed

lemma advance_at_end:
  assumes "length (tokens self) - 1 \<le> index self"
  shows "index (advance self) = index self + 1" "current_token (advance self) = current_token self"
  using assms by (auto simp: advance_def Let_def)

lemma advance_index: "index (advance self) = index self + 1"
  by (simp add: advance_def Let_def)

lemma valid_in_set:
  assumes "current_token_valid self"
  shows "current_token self \<in> set (tokens self)"
proof -
  have "0 < length (tokens self)" using assms by (simp add: current_token_valid_def)
  then have "min (index self) (length (tokens self) - 1) < length (tokens self)"
    by arith
  then show ?thesis using assms by (simp add: current_token_valid_def)
qed

lemma parse_F_at_EOF:
  "fst (current_token self) = ''EOF'' \<Longrightarrow>
   parse_F (Suc n) self = Some (Inl (ValueError ''Syntax Error: Unexpected token EOF''))"
  by (simp add: raise_def)

lemma match_at_EOF:
  "fst (current_token self) = ''EOF'' \<Longrightarrow> t \<noteq> ''EOF'' \<Longrightarrow>
   match t self = Inl (ValueError (''Syntax Error: Expected '' @ t @ '', found EOF''))"
  by (auto simp: match_def)

text \<open>
  C10: for a token list that ends with an \<open>EOF\<close> token, the parser starts with a valid
  current token, and from every state with a valid current token: the current token is an
  element of the list; \<open>advance\<close>, a successful \<open>match\<close> and every parsing method that
  returns keep the list and leave a valid current token; and once the index is at the
  last token or beyond, the current token is the final \<open>EOF\<close>, \<open>advance\<close> adds one to
  the index and leaves the current token alone, \<open>match\<close> of any other kind raises the
  syntax error that names \<open>EOF\<close> as found, and \<open>parse_F\<close> raises the syntax error for the
  unexpected token \<open>EOF\<close>.
\<close>

theorem current_token_always_defined:
  assumes "toks \<noteq> []" and "fst (last toks) = ''EOF''"
  shows "(\<exists>self. Parser_init toks = Inr self \<and> tokens self = toks \<and> current_token_valid self)
   \<and> (\<forall>self. tokens self = toks \<and> current_token_valid self \<longrightarrow>
         current_token self \<in> set toks
       \<and> tokens (advance self) = toks \<and> current_token_valid (advance self)
       \<and> (\<forall>t v self'. match t self = Inr (v, self') \<longrightarrow>
             tokens self' = toks \<and> current_token_valid self')
       \<and> (\<forall>n v self'. parse_E n self = Some (Inr (v, self')) \<longrightarrow>
             tokens self' = toks \<and> current_token_valid self')
       \<and> (\<forall>n left v self'. parse_E_PRIME n left self = Some (Inr (v, self')) \<longrightarrow>
             tokens self' = toks \<and> current_token_valid self')
       \<and> (\<forall>n v self'. parse_T n self = Some (Inr (v, self')) \<longrightarrow>
             tokens self' = toks \<and> current_token_valid self')
       \<and> (\<forall>n left v self'. parse_T_PRIME n left self = Some (Inr (v, self')) \<longrightarrow>
             tokens self' = toks \<and> current_token_valid self')
       \<and> (\<forall>n v self'. parse_F n self = Some (Inr (v, self')) \<longrightarrow>
             tokens self' = toks \<and> current_token_valid self')
       \<and> (length toks - 1 \<le> index self \<longrightarrow>
             fst (current_token self) = ''EOF''
           \<and> index (advance self) = index self + 1
           \<and> current_token (advance self) = current_token self
           \<and> (\<forall>t. t \<noteq> ''EOF'' \<longrightarrow>
                 match t self
                 = Inl (ValueError (''Syntax Error: Expected '' @ t @ '', found EOF'')))
           \<and> (\<forall>n. parse_F (Suc n) self
                 = Some (Inl (ValueError ''Syntax Error: Unexpected token EOF'')))))"
proof (intro conjI allI impI)
  show "\<exists>self. Parser_init toks = Inr self \<and> tokens self = toks \<and> current_token_valid self"
    using assms(1) by (simp add: Parser_init_def current_token_valid_def)
next
  fix self assume "tokens self = toks \<and> current_token_valid self"
  then show "current_token self \<in> set toks" using valid_in_set by blast
next
  fix self assume "tokens self = toks \<and> current_token_valid self"
  then show "tokens (advance self) = toks" by simp
next
  fix self assume "tokens self = toks \<and> current_token_valid self"
  then show "current_token_valid (advance self)" using valid_advance by blast
next
  fix self t v self'
  assume "tokens self = toks \<and> current_token_valid self" "match t self = Inr (v, self')"
  then show "tokens self' = toks" "current_token_valid self'" using match_keeps by blast+
next
  fix self n v self'
  assume "tokens self = toks \<and> current_token_valid self"
    "parse_E n self = Some (Inr (v, self'))"
  then show "tokens self' = toks" "current_token_valid self'"
    using keeps_all [of n] keepsD by blast+
next
  fix self n left v self'
  assume "tokens self = toks \<and> current_token_valid self"
    "parse_E_PRIME n left self = Some (Inr (v, self'))"
  then show "tokens self' = toks" "current_token_valid self'"
    using keeps_all [of n] keepsD by blast+
next
  fix self n v self'
  assume "tokens self = toks \<and> current_token_valid self"
    "parse_T n self = Some (Inr (v, self'))"
  then show "tokens self' = toks" "current_token_valid self'"
    using keeps_all [of n] keepsD by blast+
next
  fix self n left v self'
  assume "tokens self = toks \<and> current_token_valid self"
    "parse_T_PRIME n left self = Some (Inr (v, self'))"
  then show "tokens self' = toks" "current_token_valid self'"
    using keeps_all [of n] keepsD by blast+
next
  fix self n v self'
  assume "tokens self = toks \<and> current_token_valid self"
    "parse_F n self = Some (Inr (v, self'))"
  then show "tokens self' = toks" "current_token_valid self'"
    using keeps_all [of n] keepsD by blast+
next
  fix self
  assume a: "tokens self = toks \<and> current_token_valid self" "length toks - 1 \<le> index self"
  then show eof: "fst (current_token self) = ''EOF''"
    using at_end_EOF(2) [of self] assms(2) by simp
  show "index (advance self) = index self + 1" by (rule advance_index)
  show "current_token (advance self) = current_token self"
    using a advance_at_end(2) [of self] by simp
  { fix t :: string assume "t \<noteq> ''EOF''"
    then show "match t self = Inl (ValueError (''Syntax Error: Expected '' @ t @ '', found EOF''))"
      using eof by (rule match_at_EOF [rotated]) }
  { fix n
    show "parse_F (Suc n) self = Some (Inl (ValueError ''Syntax Error: Unexpected token EOF''))"
      using eof by (rule parse_F_at_EOF) }
qed


theorem current_token_always_defined_witness:
  "[(''NUMBER'', ''2''), (''EOF'', ''EOF'')] \<noteq> []
   \<and> fst (last [(''NUMBER'', ''2''), (''EOF'', ''EOF'')]) = ''EOF''
   \<and> (\<exists>self. Parser_init [(''NUMBER'', ''2''), (''EOF'', ''EOF'')] = Inr self
         \<and> tokens self = [(''NUMBER'', ''2''), (''EOF'', ''EOF'')]
         \<and> current_token_valid self
         \<and> current_token self \<in> set [(''NUMBER'', ''2''), (''EOF'', ''EOF'')]
         \<and> current_token_valid (advance self)
         \<and> length [(''NUMBER'', ''2''), (''EOF'', ''EOF'')] - 1 \<le> index (advance self)
         \<and> current_token (advance (advance self)) = current_token (advance self)
         \<and> parse_F 1 (advance self)
             = Some (Inl (ValueError ''Syntax Error: Unexpected token EOF'')))"
proof -
  let ?toks = "[(''NUMBER'', ''2''), (''EOF'', ''EOF'')]"
  have ne: "?toks \<noteq> []" by simp
  have eof: "fst (last ?toks) = ''EOF''" by simp
  note main = current_token_always_defined [OF ne eof]
  from main [THEN conjunct1] obtain self where self: "Parser_init ?toks = Inr self"
    "tokens self = ?toks" "current_token_valid self" by (elim exE conjE)
  have i0: "index self = 0" using self(1) by (auto simp: Parser_init_def)
  have s0: "tokens self = ?toks \<and> current_token_valid self" using self(2,3) by (rule conjI)
  note r0 = main [THEN conjunct2, rule_format, OF s0]
  from r0 have a1: "current_token self \<in> set ?toks" by (elim conjE)
  from r0 have a2: "tokens (advance self) = ?toks" by (elim conjE)
  from r0 have a3: "current_token_valid (advance self)" by (elim conjE)
  have le: "length ?toks - 1 \<le> index (advance self)" using i0 by (simp add: advance_index)
  have s1: "tokens (advance self) = ?toks \<and> current_token_valid (advance self)"
    using a2 a3 by (rule conjI)
  note r1 = main [THEN conjunct2, rule_format, OF s1]
  from r1 have "length ?toks - 1 \<le> index (advance self) \<longrightarrow>
             fst (current_token (advance self)) = ''EOF''
           \<and> index (advance (advance self)) = index (advance self) + 1
           \<and> current_token (advance (advance self)) = current_token (advance self)
           \<and> (\<forall>t. t \<noteq> ''EOF'' \<longrightarrow>
                 match t (advance self)
                 = Inl (ValueError (''Syntax Error: Expected '' @ t @ '', found EOF'')))
           \<and> (\<forall>n. parse_F (Suc n) (advance self)
                 = Some (Inl (ValueError ''Syntax Error: Unexpected token EOF'')))"
    by (elim conjE)
  with le have e: "fst (current_token (advance self)) = ''EOF''
           \<and> index (advance (advance self)) = index (advance self) + 1
           \<and> current_token (advance (advance self)) = current_token (advance self)
           \<and> (\<forall>t. t \<noteq> ''EOF'' \<longrightarrow>
                 match t (advance self)
                 = Inl (ValueError (''Syntax Error: Expected '' @ t @ '', found EOF'')))
           \<and> (\<forall>n. parse_F (Suc n) (advance self)
                 = Some (Inl (ValueError ''Syntax Error: Unexpected token EOF'')))"
    by (rule rev_mp)
  from e have b1: "current_token (advance (advance self)) = current_token (advance self)"
    by (elim conjE)
  from e have "\<forall>n. parse_F (Suc n) (advance self)
                 = Some (Inl (ValueError ''Syntax Error: Unexpected token EOF''))"
    by (elim conjE)
  then have b2: "parse_F 1 (advance self)
                 = Some (Inl (ValueError ''Syntax Error: Unexpected token EOF''))"
    unfolding One_nat_def by (rule spec)
  from self a1 a3 le b1 b2 have "\<exists>self. Parser_init ?toks = Inr self
         \<and> tokens self = ?toks
         \<and> current_token_valid self
         \<and> current_token self \<in> set ?toks
         \<and> current_token_valid (advance self)
         \<and> length ?toks - 1 \<le> index (advance self)
         \<and> current_token (advance (advance self)) = current_token (advance self)
         \<and> parse_F 1 (advance self)
             = Some (Inl (ValueError ''Syntax Error: Unexpected token EOF''))"
    by (intro exI [of _ self] conjI)
  with ne eof show ?thesis by (intro conjI)
qed

subsection \<open>Parsing concrete expressions\<close>

lemma analyse_more: "analyse n e = Some r \<Longrightarrow> analyse (k + n) e = Some r"
  using analyse_deeper [of n e r "k + n"] by simp

text \<open>
  C7: parsing \<open>2+3*4\<close> returns the tree \<open>+(2, *(3, 4))\<close>, the product being the right
  child of the sum, together with the derivation steps, at every depth from 5 on.
\<close>

theorem parse_2_plus_3_times_4:
  "analyse (n + 5) ''2+3*4'' =
     Some (Inr (ASTNode ''+'' [ASTNode ''2'' [], ASTNode ''*'' [ASTNode ''3'' [], ASTNode ''4'' []]],
                [E_to_T_E', T_to_F_T', F_to_NUMBER, T'_to_eps, E'_to_plus_T_E', T_to_F_T',
                 F_to_NUMBER, T'_to_times_F_T', F_to_NUMBER, T'_to_eps, E'_to_eps]))"
proof -
  have "analyse 5 ''2+3*4'' =
     Some (Inr (ASTNode ''+'' [ASTNode ''2'' [], ASTNode ''*'' [ASTNode ''3'' [], ASTNode ''4'' []]],
                [E_to_T_E', T_to_F_T', F_to_NUMBER, T'_to_eps, E'_to_plus_T_E', T_to_F_T',
                 F_to_NUMBER, T'_to_times_F_T', F_to_NUMBER, T'_to_eps, E'_to_eps]))"
    by code_simp
  then show ?thesis by (rule analyse_more)
qed

text \<open>
  C1: the claim is that parsing \<open>2^3^4\<close> returns \<open>^(2, ^(3, 4))\<close>. The code returns the
  literal \<open>2\<close> from \<open>parse_F\<close>, finds the \<open>CARET\<close> unread in \<open>parse\<close> and raises a syntax
  error, at every depth from 3 on.
\<close>

theorem parse_2_caret_3_caret_4:
  "analyse (n + 3) ''2^3^4'' = Some (Inl (ValueError ''Syntax Error: Unexpected token CARET''))"
proof -
  have "analyse 3 ''2^3^4'' = Some (Inl (ValueError ''Syntax Error: Unexpected token CARET''))"
    by code_simp
  then show ?thesis by (rule analyse_more)
qed

text \<open>
  C2: the claim is that parsing \<open>5!\<close> returns \<open>!(5)\<close>. The code raises a syntax error for
  the unread \<open>FACTORIAL\<close> token, at every depth from 3 on.
\<close>

theorem parse_5_factorial:
  "analyse (n + 3) ''5!'' = Some (Inl (ValueError ''Syntax Error: Unexpected token FACTORIAL''))"
proof -
  have "analyse 3 ''5!'' = Some (Inl (ValueError ''Syntax Error: Unexpected token FACTORIAL''))"
    by code_simp
  then show ?thesis by (rule analyse_more)
qed

subsection \<open>A factor that starts with an operator\<close>

text \<open>
  C3: the claim is that \<open>parse_F\<close> entered at a \<open>CARET\<close> or \<open>FACTORIAL\<close> token fails with a
  syntax error. In the code these two branches call \<open>parse_F\<close> again before any token is
  consumed, so neither \<open>parse_F\<close> nor \<open>parse\<close> returns or raises at any depth.
\<close>

theorem parse_F_entry_CARET_FACTORIAL:
  assumes "fst (current_token self) = ''CARET'' \<or> fst (current_token self) = ''FACTORIAL''"
  shows "parse_F n self = None \<and> parse n self = None"
  using parse_F_left_recursion [OF assms] parse_left_recursion [OF assms] by simp

theorem parse_F_entry_CARET_FACTORIAL_witness:
  "lexer ''!5'' = Inr [(''FACTORIAL'', ''!''), (''NUMBER'', ''5''), (''EOF'', ''EOF'')]
   \<and> Parser_init [(''FACTORIAL'', ''!''), (''NUMBER'', ''5''), (''EOF'', ''EOF'')]
       = Inr \<lparr>tokens = [(''FACTORIAL'', ''!''), (''NUMBER'', ''5''), (''EOF'', ''EOF'')],
              index = 0, current_token = (''FACTORIAL'', ''!''), derivation_steps = []\<rparr>
   \<and> (\<forall>n. parse_F n \<lparr>tokens = [(''FACTORIAL'', ''!''), (''NUMBER'', ''5''), (''EOF'', ''EOF'')],
              index = 0, current_token = (''FACTORIAL'', ''!''), derivation_steps = []\<rparr> = None
          \<and> parse n \<lparr>tokens = [(''FACTORIAL'', ''!''), (''NUMBER'', ''5''), (''EOF'', ''EOF'')],
              index = 0, current_token = (''FACTORIAL'', ''!''), derivation_steps = []\<rparr> = None)"
proof (intro conjI allI)
  let ?self = "\<lparr>tokens = [(''FACTORIAL'', ''!''), (''NUMBER'', ''5''), (''EOF'', ''EOF'')],
              index = 0, current_token = (''FACTORIAL'', ''!''), derivation_steps = []\<rparr>"
  have c: "fst (current_token ?self) = ''CARET'' \<or> fst (current_token ?self) = ''FACTORIAL''"
    by simp
  show "lexer ''!5'' = Inr [(''FACTORIAL'', ''!''), (''NUMBER'', ''5''), (''EOF'', ''EOF'')]"
    by code_simp
  show "Parser_init [(''FACTORIAL'', ''!''), (''NUMBER'', ''5''), (''EOF'', ''EOF'')] = Inr ?self"
    by (simp add: Parser_init_def)
  fix n
  show "parse_F n ?self = None" using parse_F_entry_CARET_FACTORIAL [OF c] by (rule conjunct1)
  show "parse n ?self = None" using parse_F_entry_CARET_FACTORIAL [OF c] by (rule conjunct2)
qed

text \<open>
  C4: the claim is that \<open>parse\<close> terminates on every token sequence the lexer produces.
  The lexer accepts \<open>^2\<close>, and on its tokens \<open>parse\<close> neither returns nor raises at any
  depth.
\<close>

theorem parse_caret_2_never_returns:
  "lexer ''^2'' = Inr [(''CARET'', ''^''), (''NUMBER'', ''2''), (''EOF'', ''EOF'')]
   \<and> (\<forall>n. analyse n ''^2'' = None)"
proof (intro conjI allI)
  show l: "lexer ''^2'' = Inr [(''CARET'', ''^''), (''NUMBER'', ''2''), (''EOF'', ''EOF'')]"
    by code_simp
  fix n
  let ?self = "\<lparr>tokens = [(''CARET'', ''^''), (''NUMBER'', ''2''), (''EOF'', ''EOF'')],
              index = 0, current_token = (''CARET'', ''^''), derivation_steps = []\<rparr>"
  have "parse n ?self = None" by (rule parse_left_recursion) simp
  then show "analyse n ''^2'' = None"
    by (simp add: analyse_def l Parser_init_def)
qed

subsection \<open>Termination when no factor starts with an operator\<close>

text \<open>
  Apart from the two left-recursive alternatives, every call of the descent consumes a
  token before it calls a method of the same or a higher level again. So on a token list
  that ends with \<open>EOF\<close> and holds no \<open>CARET\<close> and no \<open>FACTORIAL\<close> token, every method returns
  or raises within some depth.
\<close>

lemma remaining_append_step [simp]: "remaining (append_step p self) = remaining self"
  by (simp add: remaining_def)

lemma remaining_advance: "remaining (advance self) \<le> remaining self"
  by (simp add: remaining_def advance_index)

lemma finishes_weaken: "finishes d self f \<Longrightarrow> d' \<le> d \<Longrightarrow> finishes d' self f"
  unfolding finishes_def by (meson add_le_mono le_refl le_trans)

lemma finishes_then:
  fixes f :: "nat \<Rightarrow> (ASTNode \<times> Parser) outcome"
    and g :: "ASTNode \<Rightarrow> Parser \<Rightarrow> nat \<Rightarrow> (ASTNode \<times> Parser) outcome"
  assumes 1: "finishes d1 s0 f"
    and mf: "\<And>n m r. f n = Some r \<Longrightarrow> n \<le> m \<Longrightarrow> f m = Some r"
    and 2: "\<And>n v s1. f n = Some (Inr (v, s1)) \<Longrightarrow> remaining s1 + d1 \<le> remaining s0
              \<Longrightarrow> finishes d2 s1 (g v s1)"
    and mg: "\<And>v s1 n m r. g v s1 n = Some r \<Longrightarrow> n \<le> m \<Longrightarrow> g v s1 m = Some r"
  shows "finishes (d1 + d2) s0 (\<lambda>n. and_then (f n) (\<lambda>(v, s1). g v s1 n))"
proof -
  from 1 obtain n1 r1 where f1: "f n1 = Some r1"
    and p1: "\<And>v s1. r1 = Inr (v, s1) \<Longrightarrow> remaining s1 + d1 \<le> remaining s0"
    unfolding finishes_def by blast
  show ?thesis
  proof (cases r1)
    case (Inl e)
    with f1 have "and_then (f n1) (\<lambda>(v, s1). g v s1 n1) = Some (Inl e)" by simp
    then show ?thesis unfolding finishes_def by blast
  next
    case (Inr p)
    obtain v s1 where p: "p = (v, s1)" by (cases p)
    from f1 Inr p have fv: "f n1 = Some (Inr (v, s1))" by simp
    have q1: "remaining s1 + d1 \<le> remaining s0" using p1 Inr p by simp
    from 2 [OF fv q1] obtain n2 r2 where g2: "g v s1 n2 = Some r2"
      and p2: "\<And>w s2. r2 = Inr (w, s2) \<Longrightarrow> remaining s2 + d2 \<le> remaining s1"
      unfolding finishes_def by blast
    let ?N = "max n1 n2"
    have "f ?N = Some (Inr (v, s1))" using fv by (rule mf) simp
    moreover have "g v s1 ?N = Some r2" using g2 by (rule mg) simp
    ultimately have res: "and_then (f ?N) (\<lambda>(v, s1). g v s1 ?N) = Some r2" by simp
    have "remaining s2 + (d1 + d2) \<le> remaining s0" if "r2 = Inr (w, s2)" for w s2
      using p2 [OF that] p1 [of v s1] Inr p by simp
    with res show ?thesis unfolding finishes_def by blast
  qed
qed

lemma finishes_Suc:
  "finishes d self (\<lambda>n. f (Suc n)) \<Longrightarrow> finishes d self f"
  unfolding finishes_def by blast

lemma finishes_const:
  "(\<And>v self'. r = Inr (v, self') \<Longrightarrow> remaining self' + d \<le> remaining self)
   \<Longrightarrow> finishes d self (\<lambda>n. Some r)"
  unfolding finishes_def by blast


lemma ready_append_step [simp]: "ready (append_step p self) = ready self"
  by (simp add: ready_def)

lemma ready_advance: "ready self \<Longrightarrow> ready (advance self)"
  by (simp add: ready_def valid_advance)

lemma ready_kept:
  assumes "keeps self r" and "r = Some (Inr (v, self'))" and "ready self"
  shows "ready self'"
  using keepsD [OF assms(1,2)] assms(3) by (simp add: ready_def)

lemmas parse_E_ready = ready_kept [OF keeps_all [THEN conjunct1, rule_format]]
lemmas parse_T_ready = ready_kept [OF keeps_all [THEN conjunct2, THEN conjunct2, THEN conjunct1, rule_format]]
lemmas parse_F_ready =
  ready_kept [OF keeps_all [THEN conjunct2, THEN conjunct2, THEN conjunct2, THEN conjunct2, rule_format]]

lemma parse_E_mono: "parse_E n self = Some r \<Longrightarrow> n \<le> m \<Longrightarrow> parse_E m self = Some r"
  using fuel_mono_all [of n m] by blast
lemma parse_E_PRIME_mono:
  "parse_E_PRIME n left self = Some r \<Longrightarrow> n \<le> m \<Longrightarrow> parse_E_PRIME m left self = Some r"
  using fuel_mono_all [of n m] by blast
lemma parse_T_mono: "parse_T n self = Some r \<Longrightarrow> n \<le> m \<Longrightarrow> parse_T m self = Some r"
  using fuel_mono_all [of n m] by blast
lemma parse_T_PRIME_mono:
  "parse_T_PRIME n left self = Some r \<Longrightarrow> n \<le> m \<Longrightarrow> parse_T_PRIME m left self = Some r"
  using fuel_mono_all [of n m] by blast
lemma parse_F_mono: "parse_F n self = Some r \<Longrightarrow> n \<le> m \<Longrightarrow> parse_F m self = Some r"
  using fuel_mono_all [of n m] by blast

lemma ready_not_postfix:
  assumes "ready self"
  shows "fst (current_token self) \<noteq> ''CARET''" "fst (current_token self) \<noteq> ''FACTORIAL''"
proof -
  have "current_token self \<in> set (tokens self)" using assms valid_in_set by (simp add: ready_def)
  then show "fst (current_token self) \<noteq> ''CARET''" "fst (current_token self) \<noteq> ''FACTORIAL''"
    using assms by (auto simp: ready_def list_all_iff)
qed

lemma match_consumes:
  assumes "ready self" and "fst (current_token self) = t" and "t \<noteq> ''EOF''"
  shows "match t self = Inr (snd (current_token self), advance self)"
    and "remaining (advance self) + 1 \<le> remaining self"
proof -
  show "match t self = Inr (snd (current_token self), advance self)"
    using assms(2) by (simp add: match_def)
  have "\<not> length (tokens self) - 1 \<le> index self"
    using assms at_end_EOF(2) [of self] by (auto simp: ready_def)
  then show "remaining (advance self) + 1 \<le> remaining self"
    by (simp add: remaining_def advance_index)
qed

lemma finishes_from:
  assumes "finishes d s1 f" and "remaining s1 + d' \<le> remaining self"
  shows "finishes (d + d') self f"
proof -
  from assms(1) obtain n r where f: "f n = Some r"
    and p: "\<And>v s'. r = Inr (v, s') \<Longrightarrow> remaining s' + d \<le> remaining s1"
    unfolding finishes_def by blast
  have "remaining s' + (d + d') \<le> remaining self" if "r = Inr (v, s')" for v s'
    using p [OF that] assms(2) by simp
  with f show ?thesis unfolding finishes_def by blast
qed

lemma finishes_seq:
  fixes f :: "nat \<Rightarrow> (ASTNode \<times> Parser) outcome"
    and g :: "ASTNode \<Rightarrow> Parser \<Rightarrow> nat \<Rightarrow> (ASTNode \<times> Parser) outcome"
  assumes "\<And>n. h n = and_then (f n) (\<lambda>(v, s1). g v s1 n)"
    and "finishes d1 s0 f"
    and "\<And>n m r. f n = Some r \<Longrightarrow> n \<le> m \<Longrightarrow> f m = Some r"
    and "\<And>n v s1. f n = Some (Inr (v, s1)) \<Longrightarrow> remaining s1 + d1 \<le> remaining s0
              \<Longrightarrow> finishes d2 s1 (g v s1)"
    and "\<And>v s1 n m r. g v s1 n = Some r \<Longrightarrow> n \<le> m \<Longrightarrow> g v s1 m = Some r"
  shows "finishes (d1 + d2) s0 h"
proof -
  have "h = (\<lambda>n. and_then (f n) (\<lambda>(v, s1). g v s1 n))" using assms(1) by (rule ext)
  then show ?thesis using finishes_then [OF assms(2-5)] by simp
qed

lemma match_then_return_finishes:
  "finishes 0 s (\<lambda>n. and_then (Some (match t s)) (\<lambda>(_, s'). returns (v, s')))"
proof (cases "match t s")
  case (Inl e)
  then show ?thesis by (simp add: finishes_def)
next
  case (Inr p)
  obtain x s2 where p: "p = (x, s2)" by (cases p)
  with Inr have "s2 = advance s" by (auto simp: match_def split: if_splits)
  then have "remaining s2 \<le> remaining s" by (simp add: remaining_advance)
  with Inr p show ?thesis by (simp add: finishes_def returns_def)
qed

lemma return_finishes: "finishes 0 s (\<lambda>n. returns (v, s))"
  by (simp add: finishes_def returns_def)

lemma parse_F_finishes:
  assumes r: "ready self"
    and E: "\<And>s. ready s \<Longrightarrow> remaining s < remaining self \<Longrightarrow> finishes 1 s (\<lambda>n. parse_E n s)"
    and F: "\<And>s. ready s \<Longrightarrow> remaining s < remaining self \<Longrightarrow> finishes 1 s (\<lambda>n. parse_F n s)"
  shows "finishes 1 self (\<lambda>n. parse_F n self)"
proof -
  let ?k = "fst (current_token self)"
  note np = ready_not_postfix [OF r]
  consider (lp) "?k = ''LPAREN''" | (num) "?k = ''NUMBER''" | (sin) "?k = ''SIN''"
    | (cos) "?k = ''COS''"
    | (other) "?k \<noteq> ''LPAREN''" "?k \<noteq> ''NUMBER''" "?k \<noteq> ''SIN''" "?k \<noteq> ''COS''"
    by blast
  then have "finishes 1 self (\<lambda>n. parse_F (Suc n) self)"
  proof cases
    case lp
    let ?s0 = "append_step F_to_paren_E self"
    let ?s1 = "advance ?s0"
    have m: "match ''LPAREN'' ?s0 = Inr (snd (current_token ?s0), ?s1)"
      and lt: "remaining ?s1 + 1 \<le> remaining self"
      using match_consumes [of ?s0 "''LPAREN''"] r lp by simp_all
    have r1: "ready ?s1" using r by (simp add: ready_advance)
    have e: "finishes 1 ?s1 (\<lambda>n. parse_E n ?s1)" using E [OF r1] lt by simp
    have "finishes (1 + 0) ?s1 (\<lambda>n. parse_F (Suc n) self)"
    proof (rule finishes_seq [where f = "\<lambda>n. parse_E n ?s1"
          and g = "\<lambda>v s n. and_then (Some (match ''RPAREN'' s)) (\<lambda>(_, s'). returns (v, s'))"])
      show "parse_F (Suc n) self = and_then (parse_E n ?s1)
             (\<lambda>(v, s1). and_then (Some (match ''RPAREN'' s1)) (\<lambda>(_, s'). returns (v, s')))" for n
        using lp m by simp
      show "finishes 1 ?s1 (\<lambda>n. parse_E n ?s1)" by (rule e)
      show "parse_E m ?s1 = Some r" if "parse_E n ?s1 = Some r" "n \<le> m" for n m r
        using that by (rule parse_E_mono)
      show "finishes 0 s1 (\<lambda>n. and_then (Some (match ''RPAREN'' s1)) (\<lambda>(_, s'). returns (v, s')))"
        for v s1 by (rule match_then_return_finishes)
    qed simp
    then show ?thesis using finishes_from [of 1 ?s1 _ 0 self] lt by simp
  next
    case num
    let ?s0 = "append_step F_to_NUMBER self"
    have m: "match ''NUMBER'' ?s0 = Inr (snd (current_token ?s0), advance ?s0)"
      and lt: "remaining (advance ?s0) + 1 \<le> remaining self"
      using match_consumes [of ?s0 "''NUMBER''"] r num by simp_all
    have "parse_F (Suc n) self = Some (Inr (ASTNode (snd (current_token self)) [], advance ?s0))"
      for n using num m by (simp add: returns_def)
    then show ?thesis using lt by (simp add: finishes_def)
  next
    case sin
    let ?s0 = "append_step F_to_sin_F self"
    let ?s1 = "advance ?s0"
    have m: "match ''SIN'' ?s0 = Inr (snd (current_token ?s0), ?s1)"
      and lt: "remaining ?s1 + 1 \<le> remaining self"
      using match_consumes [of ?s0 "''SIN''"] r sin by simp_all
    have r1: "ready ?s1" using r by (simp add: ready_advance)
    have e: "finishes 1 ?s1 (\<lambda>n. parse_F n ?s1)" using F [OF r1] lt by simp
    have "finishes (1 + 0) ?s1 (\<lambda>n. parse_F (Suc n) self)"
    proof (rule finishes_seq [where f = "\<lambda>n. parse_F n ?s1"
          and g = "\<lambda>v s n. returns (ASTNode ''sin'' [v], s)"])
      show "parse_F (Suc n) self = and_then (parse_F n ?s1)
             (\<lambda>(v, s1). returns (ASTNode ''sin'' [v], s1))" for n
        using sin m by simp
      show "finishes 1 ?s1 (\<lambda>n. parse_F n ?s1)" by (rule e)
      show "parse_F m ?s1 = Some r" if "parse_F n ?s1 = Some r" "n \<le> m" for n m r
        using that by (rule parse_F_mono)
      show "finishes 0 s1 (\<lambda>n. returns (ASTNode ''sin'' [v], s1))" for v s1
        by (rule return_finishes)
    qed simp
    then show ?thesis using finishes_from [of 1 ?s1 _ 0 self] lt by simp
  next
    case cos
    let ?s0 = "append_step F_to_cos_F self"
    let ?s1 = "advance ?s0"
    have m: "match ''COS'' ?s0 = Inr (snd (current_token ?s0), ?s1)"
      and lt: "remaining ?s1 + 1 \<le> remaining self"
      using match_consumes [of ?s0 "''COS''"] r cos by simp_all
    have r1: "ready ?s1" using r by (simp add: ready_advance)
    have e: "finishes 1 ?s1 (\<lambda>n. parse_F n ?s1)" using F [OF r1] lt by simp
    have "finishes (1 + 0) ?s1 (\<lambda>n. parse_F (Suc n) self)"
    proof (rule finishes_seq [where f = "\<lambda>n. parse_F n ?s1"
          and g = "\<lambda>v s n. returns (ASTNode ''cos'' [v], s)"])
      show "parse_F (Suc n) self = and_then (parse_F n ?s1)
             (\<lambda>(v, s1). returns (ASTNode ''cos'' [v], s1))" for n
        using cos m by simp
      show "finishes 1 ?s1 (\<lambda>n. parse_F n ?s1)" by (rule e)
      show "parse_F m ?s1 = Some r" if "parse_F n ?s1 = Some r" "n \<le> m" for n m r
        using that by (rule parse_F_mono)
      show "finishes 0 s1 (\<lambda>n. returns (ASTNode ''cos'' [v], s1))" for v s1
        by (rule return_finishes)
    qed simp
    then show ?thesis using finishes_from [of 1 ?s1 _ 0 self] lt by simp
  next
    case other
    have "parse_F (Suc n) self
          = Some (Inl (ValueError (''Syntax Error: Unexpected token '' @ ?k)))" for n
      using other np by (simp add: raise_def)
    then show ?thesis by (simp add: finishes_def)
  qed
  then show ?thesis by (rule finishes_Suc)
qed

lemma parse_T_PRIME_finishes:
  assumes r: "ready self"
    and F: "\<And>s. ready s \<Longrightarrow> remaining s < remaining self \<Longrightarrow> finishes 1 s (\<lambda>n. parse_F n s)"
    and TP: "\<And>s l. ready s \<Longrightarrow> remaining s < remaining self
               \<Longrightarrow> finishes 0 s (\<lambda>n. parse_T_PRIME n l s)"
  shows "finishes 0 self (\<lambda>n. parse_T_PRIME n left self)"
proof -
  let ?k = "fst (current_token self)"
  have binary: "finishes 0 self (\<lambda>n. parse_T_PRIME (Suc n) left self)"
    if k: "?k = t" and t: "t \<noteq> ''EOF''"
      and eq: "\<And>n. parse_T_PRIME (Suc n) left self
                 = and_then (Some (match t (append_step p self))) (\<lambda>(_, s).
                   and_then (parse_F n s) (\<lambda>(v, s). parse_T_PRIME n (ASTNode op [left, v]) s))"
    for t p op
  proof -
    let ?s0 = "append_step p self"
    let ?s1 = "advance ?s0"
    have m: "match t ?s0 = Inr (snd (current_token ?s0), ?s1)"
      and lt: "remaining ?s1 + 1 \<le> remaining self"
      using match_consumes [of ?s0 t] r k t by simp_all
    have r1: "ready ?s1" using r by (simp add: ready_advance)
    have e: "finishes 1 ?s1 (\<lambda>n. parse_F n ?s1)" using F [OF r1] lt by simp
    have "finishes (1 + 0) ?s1 (\<lambda>n. parse_T_PRIME (Suc n) left self)"
    proof (rule finishes_seq [where f = "\<lambda>n. parse_F n ?s1"
          and g = "\<lambda>v s n. parse_T_PRIME n (ASTNode op [left, v]) s"])
      show "parse_T_PRIME (Suc n) left self = and_then (parse_F n ?s1)
             (\<lambda>(v, s1). parse_T_PRIME n (ASTNode op [left, v]) s1)" for n
        unfolding eq using m by simp
      show "finishes 1 ?s1 (\<lambda>n. parse_F n ?s1)" by (rule e)
      show "parse_F m ?s1 = Some r" if "parse_F n ?s1 = Some r" "n \<le> m" for n m r
        using that by (rule parse_F_mono)
      show "finishes 0 s2 (\<lambda>n. parse_T_PRIME n (ASTNode op [left, v]) s2)"
        if "parse_F n ?s1 = Some (Inr (v, s2))" "remaining s2 + 1 \<le> remaining ?s1" for n v s2
      proof (rule TP)
        show "ready s2" using that(1) r1 by (rule parse_F_ready)
        show "remaining s2 < remaining self" using that(2) lt by simp
      qed
      show "parse_T_PRIME m (ASTNode op [left, v]) s2 = Some r"
        if "parse_T_PRIME n (ASTNode op [left, v]) s2 = Some r" "n \<le> m" for v s2 n m r
        using that by (rule parse_T_PRIME_mono)
    qed
    then have "finishes 1 self (\<lambda>n. parse_T_PRIME (Suc n) left self)"
      using finishes_from [of 1 ?s1 _ 0 self] lt by simp
    then show ?thesis by (rule finishes_weaken) simp
  qed
  consider (mul) "?k = ''MULTIPLY''" | (div) "?k = ''DIVIDE''"
    | (other) "?k \<noteq> ''MULTIPLY''" "?k \<noteq> ''DIVIDE''" by blast
  then have "finishes 0 self (\<lambda>n. parse_T_PRIME (Suc n) left self)"
  proof cases
    case mul
    show ?thesis
      by (rule binary [of "''MULTIPLY''" T'_to_times_F_T' "''*''"]) (use mul in simp_all)
  next
    case div
    show ?thesis
      by (rule binary [of "''DIVIDE''" T'_to_div_F_T' "''/''"]) (use div in simp_all)
  next
    case other
    then have "parse_T_PRIME (Suc n) left self = Some (Inr (left, append_step T'_to_eps self))"
      for n by (simp add: returns_def)
    then show ?thesis by (simp add: finishes_def)
  qed
  then show ?thesis by (rule finishes_Suc)
qed

lemma parse_T_finishes:
  assumes r: "ready self"
    and F: "\<And>s. ready s \<Longrightarrow> remaining s = remaining self \<Longrightarrow> finishes 1 s (\<lambda>n. parse_F n s)"
    and TP: "\<And>s l. ready s \<Longrightarrow> remaining s < remaining self
               \<Longrightarrow> finishes 0 s (\<lambda>n. parse_T_PRIME n l s)"
  shows "finishes 1 self (\<lambda>n. parse_T n self)"
proof -
  let ?s0 = "append_step T_to_F_T' self"
  have r0: "ready ?s0" using r by simp
  have "finishes (1 + 0) ?s0 (\<lambda>n. parse_T (Suc n) self)"
  proof (rule finishes_seq [where f = "\<lambda>n. parse_F n ?s0" and g = "\<lambda>v s n. parse_T_PRIME n v s"])
    show "parse_T (Suc n) self = and_then (parse_F n ?s0) (\<lambda>(v, s1). parse_T_PRIME n v s1)" for n
      by simp
    show "finishes 1 ?s0 (\<lambda>n. parse_F n ?s0)" using r0 by (rule F) simp
    show "parse_F m ?s0 = Some r" if "parse_F n ?s0 = Some r" "n \<le> m" for n m r
      using that by (rule parse_F_mono)
    show "finishes 0 s2 (\<lambda>n. parse_T_PRIME n v s2)"
      if "parse_F n ?s0 = Some (Inr (v, s2))" "remaining s2 + 1 \<le> remaining ?s0" for n v s2
    proof (rule TP)
      show "ready s2" using that(1) r0 by (rule parse_F_ready)
      show "remaining s2 < remaining self" using that(2) by simp
    qed
    show "parse_T_PRIME m v s2 = Some r" if "parse_T_PRIME n v s2 = Some r" "n \<le> m" for v s2 n m r
      using that by (rule parse_T_PRIME_mono)
  qed
  then have "finishes 1 self (\<lambda>n. parse_T (Suc n) self)"
    using finishes_from [of 1 ?s0 _ 0 self] by simp
  then show ?thesis by (rule finishes_Suc)
qed

lemma parse_E_PRIME_finishes:
  assumes r: "ready self"
    and T: "\<And>s. ready s \<Longrightarrow> remaining s < remaining self \<Longrightarrow> finishes 1 s (\<lambda>n. parse_T n s)"
    and EP: "\<And>s l. ready s \<Longrightarrow> remaining s < remaining self
               \<Longrightarrow> finishes 0 s (\<lambda>n. parse_E_PRIME n l s)"
  shows "finishes 0 self (\<lambda>n. parse_E_PRIME n left self)"
proof -
  let ?k = "fst (current_token self)"
  have binary: "finishes 0 self (\<lambda>n. parse_E_PRIME (Suc n) left self)"
    if k: "?k = t" and t: "t \<noteq> ''EOF''"
      and eq: "\<And>n. parse_E_PRIME (Suc n) left self
                 = and_then (Some (match t (append_step p self))) (\<lambda>(_, s).
                   and_then (parse_T n s) (\<lambda>(v, s). parse_E_PRIME n (ASTNode op [left, v]) s))"
    for t p op
  proof -
    let ?s0 = "append_step p self"
    let ?s1 = "advance ?s0"
    have m: "match t ?s0 = Inr (snd (current_token ?s0), ?s1)"
      and lt: "remaining ?s1 + 1 \<le> remaining self"
      using match_consumes [of ?s0 t] r k t by simp_all
    have r1: "ready ?s1" using r by (simp add: ready_advance)
    have e: "finishes 1 ?s1 (\<lambda>n. parse_T n ?s1)" using T [OF r1] lt by simp
    have "finishes (1 + 0) ?s1 (\<lambda>n. parse_E_PRIME (Suc n) left self)"
    proof (rule finishes_seq [where f = "\<lambda>n. parse_T n ?s1"
          and g = "\<lambda>v s n. parse_E_PRIME n (ASTNode op [left, v]) s"])
      show "parse_E_PRIME (Suc n) left self = and_then (parse_T n ?s1)
             (\<lambda>(v, s1). parse_E_PRIME n (ASTNode op [left, v]) s1)" for n
        unfolding eq using m by simp
      show "finishes 1 ?s1 (\<lambda>n. parse_T n ?s1)" by (rule e)
      show "parse_T m ?s1 = Some r" if "parse_T n ?s1 = Some r" "n \<le> m" for n m r
        using that by (rule parse_T_mono)
      show "finishes 0 s2 (\<lambda>n. parse_E_PRIME n (ASTNode op [left, v]) s2)"
        if "parse_T n ?s1 = Some (Inr (v, s2))" "remaining s2 + 1 \<le> remaining ?s1" for n v s2
      proof (rule EP)
        show "ready s2" using that(1) r1 by (rule parse_T_ready)
        show "remaining s2 < remaining self" using that(2) lt by simp
      qed
      show "parse_E_PRIME m (ASTNode op [left, v]) s2 = Some r"
        if "parse_E_PRIME n (ASTNode op [left, v]) s2 = Some r" "n \<le> m" for v s2 n m r
        using that by (rule parse_E_PRIME_mono)
    qed
    then have "finishes 1 self (\<lambda>n. parse_E_PRIME (Suc n) left self)"
      using finishes_from [of 1 ?s1 _ 0 self] lt by simp
    then show ?thesis by (rule finishes_weaken) simp
  qed
  consider (plus) "?k = ''PLUS''" | (minus) "?k = ''MINUS''"
    | (other) "?k \<noteq> ''PLUS''" "?k \<noteq> ''MINUS''" by blast
  then have "finishes 0 self (\<lambda>n. parse_E_PRIME (Suc n) left self)"
  proof cases
    case plus
    show ?thesis
      by (rule binary [of "''PLUS''" E'_to_plus_T_E' "''+''"]) (use plus in simp_all)
  next
    case minus
    show ?thesis
      by (rule binary [of "''MINUS''" E'_to_minus_T_E' "''-''"]) (use minus in simp_all)
  next
    case other
    then have "parse_E_PRIME (Suc n) left self = Some (Inr (left, append_step E'_to_eps self))"
      for n by (simp add: returns_def)
    then show ?thesis by (simp add: finishes_def)
  qed
  then show ?thesis by (rule finishes_Suc)
qed

lemma parse_E_finishes:
  assumes r: "ready self"
    and T: "\<And>s. ready s \<Longrightarrow> remaining s = remaining self \<Longrightarrow> finishes 1 s (\<lambda>n. parse_T n s)"
    and EP: "\<And>s l. ready s \<Longrightarrow> remaining s < remaining self
               \<Longrightarrow> finishes 0 s (\<lambda>n. parse_E_PRIME n l s)"
  shows "finishes 1 self (\<lambda>n. parse_E n self)"
proof -
  let ?s0 = "append_step E_to_T_E' self"
  have r0: "ready ?s0" using r by simp
  have "finishes (1 + 0) ?s0 (\<lambda>n. parse_E (Suc n) self)"
  proof (rule finishes_seq [where f = "\<lambda>n. parse_T n ?s0" and g = "\<lambda>v s n. parse_E_PRIME n v s"])
    show "parse_E (Suc n) self = and_then (parse_T n ?s0) (\<lambda>(v, s1). parse_E_PRIME n v s1)" for n
      by simp
    show "finishes 1 ?s0 (\<lambda>n. parse_T n ?s0)" using r0 by (rule T) simp
    show "parse_T m ?s0 = Some r" if "parse_T n ?s0 = Some r" "n \<le> m" for n m r
      using that by (rule parse_T_mono)
    show "finishes 0 s2 (\<lambda>n. parse_E_PRIME n v s2)"
      if "parse_T n ?s0 = Some (Inr (v, s2))" "remaining s2 + 1 \<le> remaining ?s0" for n v s2
    proof (rule EP)
      show "ready s2" using that(1) r0 by (rule parse_T_ready)
      show "remaining s2 < remaining self" using that(2) by simp
    qed
    show "parse_E_PRIME m v s2 = Some r" if "parse_E_PRIME n v s2 = Some r" "n \<le> m" for v s2 n m r
      using that by (rule parse_E_PRIME_mono)
  qed
  then have "finishes 1 self (\<lambda>n. parse_E (Suc n) self)"
    using finishes_from [of 1 ?s0 _ 0 self] by simp
  then show ?thesis by (rule finishes_Suc)
qed

lemma all_finish:
  "ready self \<Longrightarrow>
     finishes 1 self (\<lambda>n. parse_F n self)
   \<and> (\<forall>left. finishes 0 self (\<lambda>n. parse_T_PRIME n left self))
   \<and> finishes 1 self (\<lambda>n. parse_T n self)
   \<and> (\<forall>left. finishes 0 self (\<lambda>n. parse_E_PRIME n left self))
   \<and> finishes 1 self (\<lambda>n. parse_E n self)"
proof (induction "remaining self" arbitrary: self rule: less_induct)
  case less
  note IH = less.hyps
  have F: "finishes 1 s (\<lambda>n. parse_F n s)" if "ready s" "remaining s = remaining self" for s
    using that(1)
  proof (rule parse_F_finishes)
    fix s' assume "ready s'" "remaining s' < remaining s"
    then show "finishes 1 s' (\<lambda>n. parse_E n s')" "finishes 1 s' (\<lambda>n. parse_F n s')"
      using IH [of s'] that(2) by simp_all
  qed
  have TP: "finishes 0 s (\<lambda>n. parse_T_PRIME n l s)" if "ready s" "remaining s < remaining self" for s l
    using IH [of s] that by simp
  have EP: "finishes 0 s (\<lambda>n. parse_E_PRIME n l s)" if "ready s" "remaining s < remaining self" for s l
    using IH [of s] that by simp
  have T: "finishes 1 s (\<lambda>n. parse_T n s)" if "ready s" "remaining s = remaining self" for s
    using that(1)
  proof (rule parse_T_finishes)
    show "finishes 1 s' (\<lambda>n. parse_F n s')" if "ready s'" "remaining s' = remaining s" for s'
      using that \<open>remaining s = remaining self\<close> by (intro F) simp_all
    show "finishes 0 s' (\<lambda>n. parse_T_PRIME n l s')" if "ready s'" "remaining s' < remaining s" for s' l
      using that \<open>remaining s = remaining self\<close> by (intro TP) simp_all
  qed
  have 1: "finishes 1 self (\<lambda>n. parse_F n self)" using less.prems by (intro F) simp_all
  have 2: "finishes 0 self (\<lambda>n. parse_T_PRIME n left self)" for left
    using less.prems
  proof (rule parse_T_PRIME_finishes)
    show "finishes 1 s (\<lambda>n. parse_F n s)" if "ready s" "remaining s < remaining self" for s
      using IH [of s] that by simp
    show "finishes 0 s (\<lambda>n. parse_T_PRIME n l s)" if "ready s" "remaining s < remaining self" for s l
      using that by (rule TP)
  qed
  have 3: "finishes 1 self (\<lambda>n. parse_T n self)" using less.prems by (intro T) simp_all
  have 4: "finishes 0 self (\<lambda>n. parse_E_PRIME n left self)" for left
    using less.prems
  proof (rule parse_E_PRIME_finishes)
    show "finishes 1 s (\<lambda>n. parse_T n s)" if "ready s" "remaining s < remaining self" for s
      using IH [of s] that by simp
    show "finishes 0 s (\<lambda>n. parse_E_PRIME n l s)" if "ready s" "remaining s < remaining self" for s l
      using that by (rule EP)
  qed
  have 5: "finishes 1 self (\<lambda>n. parse_E n self)"
    using less.prems
  proof (rule parse_E_finishes)
    show "finishes 1 s (\<lambda>n. parse_T n s)" if "ready s" "remaining s = remaining self" for s
      using that by (rule T)
    show "finishes 0 s (\<lambda>n. parse_E_PRIME n l s)" if "ready s" "remaining s < remaining self" for s l
      using that by (rule EP)
  qed
  from 1 2 3 4 5 show ?case by blast
qed

lemma parse_finishes:
  assumes "ready self"
  shows "\<exists>n r. parse n self = Some r"
proof -
  from all_finish [OF assms] have "finishes 1 self (\<lambda>n. parse_E n self)" by blast
  then obtain n r where "parse_E n self = Some r" unfolding finishes_def by blast
  then have "\<exists>r'. parse n self = Some r'"
    by (cases r) (auto simp: parse_def returns_def raise_def split: prod.splits)
  then show ?thesis by blast
qed

lemma parse_terminates_without_postfix_tokens:
  assumes "toks \<noteq> []" and "fst (last toks) = ''EOF''"
    and "list_all (\<lambda>t. fst t \<noteq> ''CARET'' \<and> fst t \<noteq> ''FACTORIAL'') toks"
  shows "\<exists>self n r. Parser_init toks = Inr self \<and> parse n self = Some r"
proof -
  let ?self = "\<lparr>tokens = toks, index = 0, current_token = toks ! 0, derivation_steps = []\<rparr>"
  have i: "Parser_init toks = Inr ?self" using assms(1) by (simp add: Parser_init_def)
  have "ready ?self" using assms by (simp add: ready_def current_token_valid_def)
  from parse_finishes [OF this] i show ?thesis by blast
qed

lemma first_match_postfix_lexeme:
  assumes "first_match TOKEN_TYPES s = Some (ty, l)"
  shows "(ty = ''CARET'' \<longrightarrow> l = ''^'') \<and> (ty = ''FACTORIAL'' \<longrightarrow> l = ''!'')"
  using assms unfolding TOKEN_TYPES_def
  by (auto split: option.splits if_splits simp del: re_match.simps(1))

lemma lexer_loop_all:
  assumes "lexer_loop e i ts = Inr toks" and "\<forall>t\<in>set ts. P t"
    and "\<And>s ty l. first_match TOKEN_TYPES s = Some (ty, l) \<Longrightarrow> P (ty, l)"
  shows "\<forall>t\<in>set (butlast toks). P t"
  using assms(1,2)
proof (induction e i ts rule: lexer_loop.induct)
  case (1 e i ts)
  show ?case
  proof (cases "i < length e")
    case False
    with "1.prems"(1) have "toks = ts @ [(''EOF'', ''EOF'')]" by (simp add: lexer_loop.simps)
    then show ?thesis using "1.prems"(2) by simp
  next
    case True
    show ?thesis
    proof (cases "first_match TOKEN_TYPES (drop i e)")
      case None
      with True "1.prems" show ?thesis by (simp add: lexer_loop.simps)
    next
      case (Some t)
      obtain ty l where t: "t = (ty, l)" by (cases t)
      from True Some t "1.prems"(1)
      have rec: "lexer_loop e (i + length l) (ts @ [(ty, l)]) = Inr toks"
        by (simp add: lexer_loop.simps [of e i])
      have "P (ty, l)" using Some t assms(3) by blast
      then have "\<forall>t\<in>set (ts @ [(ty, l)]). P t" using "1.prems"(2) by simp
      with "1.IH" [OF True Some t [symmetric] rec] show ?thesis .
    qed
  qed
qed

lemma lexer_postfix_tokens:
  assumes "lexer e = Inr toks" and "CHR ''^'' \<notin> set e" and "CHR ''!'' \<notin> set e"
  shows "list_all (\<lambda>t. fst t \<noteq> ''CARET'' \<and> fst t \<noteq> ''FACTORIAL'') toks"
proof -
  let ?P = "\<lambda>t. (fst t = ''CARET'' \<longrightarrow> snd t = ''^'') \<and> (fst t = ''FACTORIAL'' \<longrightarrow> snd t = ''!'')"
  have all: "\<forall>t\<in>set (butlast toks). ?P t"
    using assms(1) unfolding lexer_def
    by (rule lexer_loop_all) (use first_match_postfix_lexeme in auto)
  have cat: "concat (map snd (butlast toks)) = e"
    using assms(1) lexer_loop_concat [of e 0 "[]" toks] by (simp add: lexer_def)
  from assms(1) obtain ms where ms: "toks = ms @ [(''EOF'', ''EOF'')]"
    unfolding lexer_def using lexer_loop_shape by fastforce
  then have bl: "butlast toks = ms" by simp
  have "fst t \<noteq> ''CARET'' \<and> fst t \<noteq> ''FACTORIAL''" if "t \<in> set ms" for t
  proof -
    have "set (snd t) \<subseteq> set e" using that cat bl by auto
    moreover have "?P t" using all that bl by simp
    ultimately show ?thesis using assms(2,3) by auto
  qed
  then show ?thesis using ms by (auto simp: list_all_iff)
qed

lemma analyse_terminates_without_postfix_operators:
  assumes "CHR ''^'' \<notin> set e" and "CHR ''!'' \<notin> set e"
  shows "\<exists>n r. analyse n e = Some r"
proof (cases "lexer e")
  case (Inl err)
  then have "analyse 0 e = Some (Inl err)" by (simp add: analyse_def)
  then show ?thesis by blast
next
  case (Inr toks)
  then obtain ms where ms: "toks = ms @ [(''EOF'', ''EOF'')]"
    unfolding lexer_def using lexer_loop_shape by fastforce
  then have "toks \<noteq> []" "fst (last toks) = ''EOF''" by simp_all
  moreover have "list_all (\<lambda>t. fst t \<noteq> ''CARET'' \<and> fst t \<noteq> ''FACTORIAL'') toks"
    using Inr assms by (rule lexer_postfix_tokens)
  ultimately obtain self n r where "Parser_init toks = Inr self" "parse n self = Some r"
    using parse_terminates_without_postfix_tokens by blast
  with Inr have "analyse n e = Some r" by (simp add: analyse_def)
  then show ?thesis by blast
qed

end
